theory Spec2Isabelle
  imports Main "HOL-Library.Word" "HOL-Library.Signed_Division"
begin

section \<open>Segment tree (src/data\_structures/segment\_tree.cpp)\<close>

subsection \<open>Vectors and subscripting\<close>

text \<open>
  \<^verbatim>\<open>typedef long long ll;\<close> is a 64-bit word. Signed overflow is undefined in
  C++; the model lets the addition of two elements wrap, as the machine does, and every
  sum below is a sum of 64-bit words.

  The indices \<^verbatim>\<open>v, tl, tr, l, r, pos\<close> are C++ \<^verbatim>\<open>int\<close>s of 32 bits. An
  index is an integer, and every arithmetic operation the source performs on
  \<^verbatim>\<open>int\<close>s is followed by \<open>i32\<close>, which wraps the result into
  \<open>[-2^31, 2^31)\<close> as the machine does (signed overflow is undefined in C++,
  too). HOL has a constant \<open>tl\<close>, so the node range \<^verbatim>\<open>[tl, tr]\<close> is written
  \<open>[lo, hi]\<close>.

  A \<^verbatim>\<open>std::vector<ll>\<close> is a store from index to element; an index with no element
  lies outside the vector's storage. \<^verbatim>\<open>operator[]\<close> does not check its index: a
  subscript outside the storage is undefined behaviour, which the model reports as
  \<open>OutOfBounds\<close> and stops at. A negative \<^verbatim>\<open>int\<close> subscript converts to a
  \<^verbatim>\<open>size_t\<close> beyond every vector, so a store built by \<open>vector\<close> has no element
  there.
\<close>

type_synonym ll = "64 word"

definition i32 :: "int \<Rightarrow> int" where
  "i32 x = (x + 2147483648) mod 4294967296 - 2147483648"

type_synonym vec = "int \<rightharpoonup> ll"

datatype error = OutOfBounds int

text \<open>
  An execution either does not return (\<open>None\<close>), stops at an access outside a vector
  (\<open>Some (Inl e)\<close>) or returns a value (\<open>Some (Inr x)\<close>).
\<close>

type_synonym 'a outcome = "(error + 'a) option"

definition vector :: "ll list \<Rightarrow> vec" where
  "vector xs = (\<lambda>i. if 0 \<le> i \<and> i < int (length xs) then Some (xs ! nat i) else None)"

text \<open>Reading \<^verbatim>\<open>t[i]\<close> and writing \<^verbatim>\<open>t[i] = x\<close>.\<close>

definition at :: "vec \<Rightarrow> int \<Rightarrow> error + ll" where
  "at t i = (case t i of None \<Rightarrow> Inl (OutOfBounds i) | Some x \<Rightarrow> Inr x)"

definition put :: "vec \<Rightarrow> int \<Rightarrow> ll \<Rightarrow> error + vec" where
  "put t i x = (case t i of None \<Rightarrow> Inl (OutOfBounds i) | Some _ \<Rightarrow> Inr (t(i \<mapsto> x)))"

text \<open>The statement \<^verbatim>\<open>tree[v] = tree[2 * v] + tree[2 * v + 1];\<close> of build and update.\<close>

definition pull :: "vec \<Rightarrow> int \<Rightarrow> error + vec" where
  "pull t v =
     (case at t (i32 (2 * v)) of Inl e \<Rightarrow> Inl e
      | Inr a \<Rightarrow> (case at t (i32 (i32 (2 * v) + 1)) of Inl e \<Rightarrow> Inl e
                 | Inr b \<Rightarrow> put t v (a + b)))"

text \<open>
  \<^verbatim>\<open>int tm = tl + (tr - tl) / 2;\<close> where \<^verbatim>\<open>/\<close> truncates towards zero (\<open>sdiv\<close>);
  halving cannot overflow.
\<close>

definition mid :: "int \<Rightarrow> int \<Rightarrow> int" where
  "mid lo hi = i32 (lo + i32 (hi - lo) sdiv 2)"

text \<open>Sequencing: the second step runs on the value the first one returned.\<close>

definition and_then :: "'a outcome \<Rightarrow> ('a \<Rightarrow> 'b outcome) \<Rightarrow> 'b outcome" where
  "and_then m f = Option.bind m (\<lambda>r. case r of Inl e \<Rightarrow> Some (Inl e) | Inr x \<Rightarrow> f x)"

lemma and_then_mono [partial_function_mono]:
  assumes "mono_option B" and "\<And>y. mono_option (\<lambda>f. C y f)"
  shows "mono_option (\<lambda>f. and_then (B f) (\<lambda>y. C y f))"
  unfolding and_then_def
proof (rule bind_mono [OF assms(1)])
  fix r
  show "mono_option (\<lambda>f. case r of Inl e \<Rightarrow> Some (Inl e) | Inr x \<Rightarrow> C x f)"
    by (cases r) (simp_all add: assms(2) option.const_mono)
qed

subsection \<open>build, sum, update\<close>

text \<open>
  \<^verbatim>\<open>
  void build(const std::vector<ll>& arr, int v, int tl, int tr) {
      if (tl == tr) {
          tree[v] = arr[tl];
      } else {
          int tm = tl + (tr - tl) / 2;
          build(arr, v * 2, tl, tm);
          build(arr, v * 2 + 1, tm + 1, tr);
          tree[v] = tree[2 * v] + tree[2 * v + 1];
      }
  }
  \<close>
  The member \<^verbatim>\<open>tree\<close> is passed in and returned. The recursion need not end when
  \<open>hi < lo\<close>, hence a partial function.
\<close>

partial_function (option) build :: "vec \<Rightarrow> vec \<Rightarrow> int \<Rightarrow> int \<Rightarrow> int \<Rightarrow> vec outcome" where
  "build arr t v lo hi =
     (if lo = hi then
        Some (case at arr lo of Inl e \<Rightarrow> Inl e | Inr x \<Rightarrow> put t v x)
      else
        (let tm = mid lo hi in
         and_then (build arr t (i32 (v * 2)) lo tm) (\<lambda>t1.
         and_then (build arr t1 (i32 (i32 (v * 2) + 1)) (i32 (tm + 1)) hi) (\<lambda>t2.
         Some (pull t2 v)))))"

text \<open>
  \<^verbatim>\<open>
  ll sum(int v, int tl, int tr, int l, int r) {
      if (l > r) return 0;
      if (l == tl && r == tr) return tree[v];
      int tm = tl + (tr - tl) / 2;
      return sum(2 * v, tl, tm, l, std::min(r, tm)) + sum(2 * v + 1, tm + 1, tr, std::max(l, tm + 1), r);
  }
  \<close>
  C++ leaves open which operand of \<^verbatim>\<open>+\<close> is evaluated first; the model takes the
  left one. Neither call changes the tree, so the order shows only in which of two
  failing calls is reported.
\<close>

partial_function (option) sum_st :: "vec \<Rightarrow> int \<Rightarrow> int \<Rightarrow> int \<Rightarrow> int \<Rightarrow> int \<Rightarrow> ll outcome" where
  "sum_st t v lo hi l r =
     (if l > r then Some (Inr 0)
      else if l = lo \<and> r = hi then Some (at t v)
      else
        (let tm = mid lo hi in
         and_then (sum_st t (i32 (2 * v)) lo tm l (min r tm)) (\<lambda>a.
         and_then (sum_st t (i32 (i32 (2 * v) + 1)) (i32 (tm + 1)) hi (max l (i32 (tm + 1))) r) (\<lambda>b.
         Some (Inr (a + b))))))"

text \<open>
  \<^verbatim>\<open>
  void update(int v, int tl, int tr, int pos, int val) {
      if(tl == tr) {
          tree[v] = val;
      } else {
          int tm = tl + (tr - tl) / 2;
          if (pos <= tm) {
              update(2 * v, tl, tm, pos, val);
          } else {
              update(2 * v + 1, tm + 1, tr, pos, val);
          }
          tree[v] = tree[2 * v] + tree[2 * v + 1];
      }
  }
  \<close>
  The parameter \<^verbatim>\<open>val\<close> is a 32-bit \<^verbatim>\<open>int\<close>; storing it in a \<^verbatim>\<open>long long\<close> slot
  sign-extends it (\<open>scast\<close>).
\<close>

partial_function (option) update :: "vec \<Rightarrow> int \<Rightarrow> int \<Rightarrow> int \<Rightarrow> int \<Rightarrow> 32 word \<Rightarrow> vec outcome" where
  "update t v lo hi pos val =
     (if lo = hi then
        Some (put t v (scast val))
      else
        (let tm = mid lo hi in
         and_then (if pos \<le> tm then update t (i32 (2 * v)) lo tm pos val
                   else update t (i32 (i32 (2 * v) + 1)) (i32 (tm + 1)) hi pos val) (\<lambda>t1.
         Some (pull t1 v))))"

text \<open>
  The constructor:
  \<^verbatim>\<open>
  SegmentTree(const std::vector<ll>& arr) {
      size_t n = arr.size();
      tree.assign(4 * n, 0);
      build(arr, 1, 0, n - 1);
  }
  \<close>
  The member \<^verbatim>\<open>size\<close> is never assigned or read, so the state of a
  \<^verbatim>\<open>SegmentTree\<close> is its vector \<^verbatim>\<open>tree\<close>. \<^verbatim>\<open>4 * n\<close> is a product of
  64-bit \<^verbatim>\<open>size_t\<close>s, and passing \<^verbatim>\<open>n - 1\<close> for an \<^verbatim>\<open>int\<close> keeps its low 32
  bits.
\<close>

definition SegmentTree :: "ll list \<Rightarrow> vec outcome" where
  "SegmentTree arr =
     (let n = length arr in
      build (vector arr) (vector (replicate ((4 * n) mod 2 ^ 64) 0)) 1 0 (i32 (int n - 1)))"

text \<open>
  \<^verbatim>\<open>void update(int pos, int val) { return update(1, 0, n - 1, pos, val); }\<close>
  The source declares no \<^verbatim>\<open>n\<close>; it is the length of the array the tree was built
  from, taken as a parameter.
\<close>

definition update_pos :: "nat \<Rightarrow> vec \<Rightarrow> int \<Rightarrow> 32 word \<Rightarrow> vec outcome" where
  "update_pos n t pos val = update t 1 0 (i32 (int n - 1)) pos val"

text \<open>
  Modelled from the spec: the entry point \<^verbatim>\<open>query(l, r)\<close>, which the source does not
  define. The spec describes it as the range decomposition \<^verbatim>\<open>sum\<close> "starting at the
  root \<^verbatim>\<open>(v=1, tl=0, tr=n-1)\<close>".
\<close>

definition query :: "nat \<Rightarrow> vec \<Rightarrow> int \<Rightarrow> int \<Rightarrow> ll outcome" where
  "query n t l r = sum_st t 1 0 (i32 (int n - 1)) l r"

subsection \<open>Sequences of calls\<close>

text \<open>
  A tree is constructed once and then changed by \<^verbatim>\<open>update\<close> only. \<open>updates\<close>
  runs a list of calls \<^verbatim>\<open>update(pos, val)\<close>, and \<open>tree_after A us\<close> is the tree
  constructed from \<open>A\<close> after the calls \<open>us\<close>. \<open>contents A us\<close> is the array these
  calls describe, and \<open>valid_calls\<close> says that every position is an index of the array.
\<close>

fun updates :: "nat \<Rightarrow> vec \<Rightarrow> (int \<times> 32 word) list \<Rightarrow> vec outcome" where
  "updates n t [] = Some (Inr t)"
| "updates n t ((pos, val) # us) = and_then (update_pos n t pos val) (\<lambda>t'. updates n t' us)"

definition tree_after :: "ll list \<Rightarrow> (int \<times> 32 word) list \<Rightarrow> vec outcome" where
  "tree_after A us = and_then (SegmentTree A) (\<lambda>t. updates (length A) t us)"

fun contents :: "ll list \<Rightarrow> (int \<times> 32 word) list \<Rightarrow> ll list" where
  "contents A [] = A"
| "contents A ((pos, val) # us) = contents (A[nat pos := scast val]) us"

definition valid_calls :: "nat \<Rightarrow> (int \<times> 32 word) list \<Rightarrow> bool" where
  "valid_calls n us = list_all (\<lambda>(pos, val). 0 \<le> pos \<and> pos < int n) us"

subsection \<open>Ranges, slots and the invariant\<close>

text \<open>The elements \<open>A[l..r]\<close>, both ends included.\<close>

definition slice :: "'a list \<Rightarrow> int \<Rightarrow> int \<Rightarrow> 'a list" where
  "slice xs l r = take (nat (r - l + 1)) (drop (nat l) xs)"

text \<open>
  A store has the slots \<open>1, \<dots>, 4 * n - 1\<close>. The vector the constructor assigns has
  them, and slot \<open>0\<close> as well.
\<close>

definition alloc :: "nat \<Rightarrow> vec \<Rightarrow> bool" where
  "alloc n t = (\<forall>i. 1 \<le> i \<and> i < 4 * int n \<longrightarrow> t i \<noteq> None)"

text \<open>
  The midpoint of a node \<open>[lo, hi]\<close> with \<open>lo \<le> hi\<close>, as an integer.
\<close>

definition half :: "int \<Rightarrow> int \<Rightarrow> int" where
  "half lo hi = lo + (hi - lo) div 2"

text \<open>
  A node \<open>v\<close> covering \<open>[lo, hi]\<close> fits a tree over \<open>n \<le> 2^30\<close> elements:
  \<open>v\<close> is below \<open>4 * n\<close> and below \<open>2^31\<close>. The last conjunct, with \<open>d\<close> the
  depth of the node, passes from a node to its children and gives them these bounds.
\<close>

definition fits :: "nat \<Rightarrow> int \<Rightarrow> int \<Rightarrow> int \<Rightarrow> bool" where
  "fits n v lo hi =
     (1 \<le> v \<and> 0 \<le> lo \<and> lo \<le> hi \<and> hi < int n \<and> int n \<le> 1073741824 \<and>
      v < 4 * int n \<and> v < 2147483648 \<and>
      (\<exists>d. v < 2 ^ (d + 1) \<and> 2 ^ d * (hi - lo) < int n))"

text \<open>Slot \<open>w\<close> lies in the subtree of slot \<open>v\<close>: halving \<open>w\<close> reaches \<open>v\<close>.\<close>

function under :: "int \<Rightarrow> int \<Rightarrow> bool" where
  "under v w = (if w \<le> v \<or> v < 1 then w = v else under v (w div 2))"
  by pat_completeness auto
termination
  by (relation "measure (\<lambda>(v, w). nat w)") auto

declare under.simps [simp del]

lemma half_bounds: "lo < hi \<Longrightarrow> lo \<le> half lo hi \<and> half lo hi < hi"
  by (simp add: half_def)

text \<open>
  The invariant of the node \<open>v\<close> covering \<open>[lo, hi]\<close> and of every node below it: a
  leaf holds the array's value, an internal node the sum of its two children.
\<close>

function seg_inv :: "vec \<Rightarrow> ll list \<Rightarrow> int \<Rightarrow> int \<Rightarrow> int \<Rightarrow> bool" where
  "seg_inv t A v lo hi =
     (if hi < lo then False
      else if lo = hi then
        (case vector A lo of None \<Rightarrow> False | Some x \<Rightarrow> t v = Some x)
      else seg_inv t A (2 * v) lo (half lo hi) \<and>
           seg_inv t A (2 * v + 1) (half lo hi + 1) hi \<and>
           (case (t (2 * v), t (2 * v + 1)) of
              (Some x, Some y) \<Rightarrow> t v = Some (x + y)
            | _ \<Rightarrow> False))"
  by pat_completeness auto
termination
proof (relation "measure (\<lambda>(t, A, v, lo, hi). nat (hi - lo))")
  fix t :: vec and A :: "ll list" and v lo hi :: int
  assume "\<not> hi < lo" "lo \<noteq> hi"
  then have "lo < hi" by simp
  from half_bounds [OF this]
  show "((t, A, 2 * v, lo, half lo hi), t, A, v, lo, hi) \<in> measure (\<lambda>(t, A, v, lo, hi). nat (hi - lo))"
    and "((t, A, 2 * v + 1, half lo hi + 1, hi), t, A, v, lo, hi) \<in> measure (\<lambda>(t, A, v, lo, hi). nat (hi - lo))"
    by simp_all
qed simp

declare seg_inv.simps [simp del]

text \<open>The store \<open>t\<close> is a tree for the array \<open>B\<close>.\<close>

definition represents :: "vec \<Rightarrow> ll list \<Rightarrow> bool" where
  "represents t B =
     (1 \<le> length B \<and> length B \<le> 1073741824 \<and> alloc (length B) t \<and>
      seg_inv t B 1 0 (int (length B) - 1))"

section \<open>customSharedPtr (src/data\_structures/shared\_ptr.cpp)\<close>

text \<open>
  A pointer is null or names an object by the block it was allocated in and an offset
  in elements from the block's start; \<^verbatim>\<open>p++\<close> adds one to the offset. Every
  \<^verbatim>\<open>new size_t(1)\<close> is a block of one element, so only offset \<open>0\<close> of an allocated
  block may be dereferenced. The reference counters are the list of the blocks
  allocated so far, \<^verbatim>\<open>std::size_t\<close> being a 64-bit word.
\<close>

datatype pointer = Nullptr | Ptr nat int

datatype mem_error = NullPointer | InvalidDereference pointer

type_synonym counters = "64 word list"

text \<open>
  \<^verbatim>\<open>
  private:
      T* m_ptr;
      std::size_t* m_ref_count;
  \<close>
\<close>

record customSharedPtr =
  m_ptr :: pointer
  m_ref_count :: pointer

text \<open>Reading \<^verbatim>\<open>*p\<close> and writing \<^verbatim>\<open>*p = x\<close> for a pointer to a counter.\<close>

definition deref :: "counters \<Rightarrow> pointer \<Rightarrow> mem_error + 64 word" where
  "deref h p =
     (case p of
        Nullptr \<Rightarrow> Inl NullPointer
      | Ptr b off \<Rightarrow>
          if off = 0 \<and> b < length h then Inr (h ! b) else Inl (InvalidDereference p))"

definition store :: "counters \<Rightarrow> pointer \<Rightarrow> 64 word \<Rightarrow> mem_error + counters" where
  "store h p x =
     (case p of
        Nullptr \<Rightarrow> Inl NullPointer
      | Ptr b off \<Rightarrow>
          if off = 0 \<and> b < length h then Inr (h[b := x]) else Inl (InvalidDereference p))"

text \<open>
  \<^verbatim>\<open>
  customSharedPtr(T* ptr)
  : m_ptr(ptr),
  m_ref_count(new size_t(1))
  {}
  \<close>
\<close>

definition customSharedPtr :: "pointer \<Rightarrow> counters \<Rightarrow> customSharedPtr \<times> counters" where
  "customSharedPtr ptr h = (\<lparr>m_ptr = ptr, m_ref_count = Ptr (length h) 0\<rparr>, h @ [1])"

text \<open>
  \<^verbatim>\<open>
  customSharedPtr(const customSharedPtr& other)
  : m_ptr(other.m_ptr),
  m_ref_count(other.m_ref_count)
  {
      *m_ref_count++;
  }
  \<close>
  Postfix \<^verbatim>\<open>++\<close> binds tighter than \<^verbatim>\<open>*\<close>: the statement is
  \<^verbatim>\<open>*(m_ref_count++)\<close>. It advances the new object's pointer by one element and
  discards the value designated by the old pointer; no counter is written.
\<close>

definition copy_ctor :: "customSharedPtr \<Rightarrow> counters \<Rightarrow> mem_error + (customSharedPtr \<times> counters)" where
  "copy_ctor other h =
     (case m_ref_count other of
        Nullptr \<Rightarrow> Inl NullPointer
      | Ptr b off \<Rightarrow> Inr (\<lparr>m_ptr = m_ptr other, m_ref_count = Ptr b (off + 1)\<rparr>, h))"

text \<open>
  \<^verbatim>\<open>
  customSharedPtr& operator=(const customSharedPtr& other)
  {
      // todo: cleanup existing data
      this->m_ptr = other.m_ptr;
      this->m_ref_count = other.m_ref_count;
      if(other.m_ptr != nullptr) {
          (*this->m_ref_count)++;
      }
      return *this;
  }
  \<close>
\<close>

definition copy_assign ::
  "customSharedPtr \<Rightarrow> customSharedPtr \<Rightarrow> counters \<Rightarrow> mem_error + (customSharedPtr \<times> counters)" where
  "copy_assign this other h =
     (let this' = this\<lparr>m_ptr := m_ptr other, m_ref_count := m_ref_count other\<rparr> in
      if m_ptr other \<noteq> Nullptr then
        (case deref h (m_ref_count this') of
           Inl e \<Rightarrow> Inl e
         | Inr c \<Rightarrow> (case store h (m_ref_count this') (c + 1) of
                      Inl e \<Rightarrow> Inl e
                    | Inr h' \<Rightarrow> Inr (this', h')))
      else Inr (this', h))"

text \<open>
  \<^verbatim>\<open>long use_count() const noexcept { return static_cast<long>(*this->m_ref_count); }\<close>
\<close>

definition use_count :: "customSharedPtr \<Rightarrow> counters \<Rightarrow> mem_error + 64 word" where
  "use_count this h = deref h (m_ref_count this)"

section \<open>customUniquePointer (src/data\_structures/unique\_pointer.cpp)\<close>

text \<open>
  \<^verbatim>\<open>
  private:
      pointer mPtr = nullptr;
      Deleter mDeleter;
  \<close>
  A move names two objects, which may be the same one, so the live
  \<^verbatim>\<open>customUniquePointer\<close> objects are kept in a store from their identity to their
  fields; an identity with no object is one that was never constructed or has been
  destroyed, and using it is reported as \<open>Destroyed\<close>.
\<close>

record 'd customUniquePointer =
  mPtr :: pointer
  mDeleter :: 'd

type_synonym 'd objects = "nat \<rightharpoonup> 'd customUniquePointer"

datatype object_error = Destroyed nat

text \<open>
  \<^verbatim>\<open>Deleter\<close> is a template parameter: the call \<^verbatim>\<open>mDeleter(p)\<close> runs
  \<^verbatim>\<open>delete p\<close>, and with it the destructor of the pointee, or any code the user
  supplied. What that code does to the objects is the parameter \<open>run\<close> of the
  operations below: \<open>run d p\<close> is the effect of calling the deleter \<open>d\<close> on \<open>p\<close>. It
  may change objects and destroy them.
\<close>

type_synonym 'd deleter_code = "'d \<Rightarrow> pointer \<Rightarrow> 'd objects \<Rightarrow> 'd objects"

text \<open>
  \<^verbatim>\<open>pointer get() { return mPtr; }\<close> and
  \<^verbatim>\<open>explicit operator bool() const { return mPtr != nullptr; }\<close>
\<close>

definition get :: "nat \<Rightarrow> 'd objects \<Rightarrow> object_error + pointer" where
  "get this w = (case w this of None \<Rightarrow> Inl (Destroyed this) | Some a \<Rightarrow> Inr (mPtr a))"

definition operator_bool :: "nat \<Rightarrow> 'd objects \<Rightarrow> object_error + bool" where
  "operator_bool this w =
     (case w this of None \<Rightarrow> Inl (Destroyed this) | Some a \<Rightarrow> Inr (mPtr a \<noteq> Nullptr))"

text \<open>
  \<^verbatim>\<open>
  customUniquePointer(customUniquePointer&& other) noexcept
  : mPtr{std::exchange(other.mPtr, nullptr)}
  , mDeleter{std::move(other.mDeleter)}
  {}
  \<close>
  \<^verbatim>\<open>std::exchange\<close> stores \<^verbatim>\<open>nullptr\<close> in \<^verbatim>\<open>other.mPtr\<close> and returns what was
  there. The constructor makes the object \<open>this\<close>. Moving a deleter leaves the source's
  deleter as it is (the deleters of the source file, \<^verbatim>\<open>std::default_delete\<close> and a
  captureless lambda, have no state).
\<close>

definition move_ctor :: "nat \<Rightarrow> nat \<Rightarrow> 'd objects \<Rightarrow> object_error + 'd objects" where
  "move_ctor this other w =
     (case w other of
        None \<Rightarrow> Inl (Destroyed other)
      | Some b \<Rightarrow>
          (let w1 = w(other \<mapsto> b\<lparr>mPtr := Nullptr\<rparr>) in
           case w1 other of
             None \<Rightarrow> Inl (Destroyed other)
           | Some b1 \<Rightarrow> Inr (w1(this \<mapsto> \<lparr>mPtr = mPtr b, mDeleter = mDeleter b1\<rparr>))))"

text \<open>
  \<^verbatim>\<open>
  customUniquePointer& operator=(customUniquePointer&& other)        // move assignment
  {
      mDeleter(mPtr);
      mPtr = std::exchange(other.mPtr, nullptr);
      mDeleter = std::move(other.mDeleter);
      return *this;
  }
  \<close>
  The deleter runs first, on the pointer the destination held; only then is
  \<^verbatim>\<open>other.mPtr\<close> read.
\<close>

definition move_assign ::
  "'d deleter_code \<Rightarrow> nat \<Rightarrow> nat \<Rightarrow> 'd objects \<Rightarrow> object_error + 'd objects" where
  "move_assign run this other w =
     (case w this of
        None \<Rightarrow> Inl (Destroyed this)
      | Some a \<Rightarrow>
          (let w1 = run (mDeleter a) (mPtr a) w in
           case w1 other of
             None \<Rightarrow> Inl (Destroyed other)
           | Some b \<Rightarrow>
               (let w2 = w1(other \<mapsto> b\<lparr>mPtr := Nullptr\<rparr>) in
                case w2 this of
                  None \<Rightarrow> Inl (Destroyed this)
                | Some a2 \<Rightarrow>
                    (let w3 = w2(this \<mapsto> a2\<lparr>mPtr := mPtr b\<rparr>) in
                     case (w3 other, w3 this) of
                       (None, _) \<Rightarrow> Inl (Destroyed other)
                     | (Some b3, None) \<Rightarrow> Inl (Destroyed this)
                     | (Some b3, Some a3) \<Rightarrow>
                         Inr (w3(this \<mapsto> a3\<lparr>mDeleter := mDeleter b3\<rparr>))))))"

section \<open>Properties of the segment tree\<close>

subsection \<open>Evaluation\<close>

lemmas run_simps =
  build.simps sum_st.simps update.simps SegmentTree_def update_pos_def query_def
  tree_after_def vector_def at_def put_def pull_def mid_def i32_def and_then_def
  signed_divide_int_def Let_def

lemma and_then_simps [simp]:
  "and_then None f = None"
  "and_then (Some (Inl e)) f = Some (Inl e)"
  "and_then (Some (Inr x)) f = f x"
  by (simp_all add: and_then_def)

lemma and_then_Some:
  "and_then m f = Some y \<Longrightarrow> \<exists>x. m = Some (Inr x) \<or> (\<exists>e. m = Some (Inl e))"
  by (cases m) (auto simp: and_then_def split: sum.splits)

subsection \<open>Arithmetic inside the 32-bit range\<close>

lemma i32_id: "- 2147483648 \<le> x \<Longrightarrow> x < 2147483648 \<Longrightarrow> i32 x = x"
  by (simp add: i32_def)

lemma mid_half:
  assumes "0 \<le> lo" "lo \<le> hi" "hi < 2147483648"
  shows "mid lo hi = half lo hi"
proof -
  have a: "i32 (hi - lo) = hi - lo"
    using assms by (intro i32_id) simp_all
  have b: "(hi - lo) sdiv 2 = (hi - lo) div 2"
    using assms by (simp add: signed_divide_int_def sgn_if)
  have "i32 (lo + (hi - lo) div 2) = lo + (hi - lo) div 2"
    using assms by (intro i32_id) simp_all
  with a b show ?thesis by (simp add: mid_def half_def)
qed

subsection \<open>Slices\<close>

lemma slice_empty: "r < l \<Longrightarrow> slice xs l r = []"
  by (simp add: slice_def)

lemma slice_single: "0 \<le> p \<Longrightarrow> p < int (length xs) \<Longrightarrow> slice xs p p = [xs ! nat p]"
  by (simp add: slice_def take_Suc_conv_app_nth)

lemma slice_all: "slice xs 0 (int (length xs) - 1) = xs"
  by (simp add: slice_def)

lemma slice_split:
  assumes "0 \<le> l" "l \<le> m + 1" "m \<le> r"
  shows "slice xs l r = slice xs l m @ slice xs (m + 1) r"
proof -
  have a: "nat (r - l + 1) = nat (m - l + 1) + nat (r - (m + 1) + 1)"
    using assms by simp
  have b: "nat (m - l + 1) + nat l = nat (m + 1)"
    using assms by simp
  show ?thesis
    unfolding slice_def a take_add by (simp add: b)
qed

lemma vector_update:
  "0 \<le> p \<Longrightarrow>
   vector (A[nat p := x]) i = (if i = p \<and> p < int (length A) then Some x else vector A i)"
  by (auto simp: vector_def nth_list_update nat_eq_iff)

subsection \<open>Subtrees of slots\<close>

lemma under_refl: "under v v"
  by (simp add: under.simps)

lemma under_le: "under v w \<Longrightarrow> v \<le> w"
  by (induction v w rule: under.induct) (subst (asm) under.simps, auto split: if_splits)

lemma under_left: "1 \<le> v \<Longrightarrow> under (2 * v) w \<Longrightarrow> under v w"
proof (induction "2 * v" w rule: under.induct)
  case (1 w)
  show ?case
  proof (cases "w \<le> 2 * v")
    case True
    with 1 have "w = 2 * v" by (simp add: under.simps)
    with 1(2) show ?thesis by (simp add: under.simps [of v "2 * v"] under_refl)
  next
    case False
    with 1 have "under v (w div 2)" by (simp add: under.simps [of "2 * v" w])
    with False 1(2) show ?thesis by (simp add: under.simps [of v w])
  qed
qed

lemma under_right: "1 \<le> v \<Longrightarrow> under (2 * v + 1) w \<Longrightarrow> under v w"
proof (induction "2 * v + 1" w rule: under.induct)
  case (1 w)
  show ?case
  proof (cases "w \<le> 2 * v + 1")
    case True
    with 1 have "w = 2 * v + 1" by (simp add: under.simps)
    with 1(2) show ?thesis by (simp add: under.simps [of v "2 * v + 1"] under_refl)
  next
    case False
    with 1 have "under v (w div 2)" by (simp add: under.simps [of "2 * v + 1" w])
    with False 1(2) show ?thesis by (simp add: under.simps [of v w])
  qed
qed

lemma under_disjoint: "1 \<le> v \<Longrightarrow> under (2 * v) w \<Longrightarrow> under (2 * v + 1) w \<Longrightarrow> False"
proof (induction "2 * v" w rule: under.induct)
  case (1 w)
  show ?case
  proof (cases "w \<le> 2 * v + 1")
    case True
    with under_le [OF 1(4)] have w: "w = 2 * v + 1" by simp
    have "(2 * v + 1) div 2 = v" by simp
    with 1(2,3) w have "under (2 * v) v"
      by (simp add: under.simps [of "2 * v" "2 * v + 1"])
    from under_le [OF this] 1(2) show ?thesis by simp
  next
    case False
    with 1(2,3,4) have "under (2 * v) (w div 2)" "under (2 * v + 1) (w div 2)"
      by (simp_all add: under.simps [of "2 * v" w] under.simps [of "2 * v + 1" w])
    with 1(1) [OF _ 1(2)] False 1(2) show ?thesis by simp
  qed
qed

subsection \<open>Nodes stay inside the storage\<close>

lemma fits_root: "1 \<le> n \<Longrightarrow> n \<le> 1073741824 \<Longrightarrow> fits n 1 0 (int n - 1)"
  unfolding fits_def by (auto intro: exI [of _ 0])

lemma fits_children:
  assumes "fits n v lo hi" "lo < hi"
  shows "fits n (2 * v) lo (half lo hi)" and "fits n (2 * v + 1) (half lo hi + 1) hi"
proof -
  from assms(1) obtain d where
    v: "1 \<le> v" and lo: "0 \<le> lo" and hi: "hi < int n" and n: "int n \<le> 1073741824"
    and vd: "v < 2 ^ (d + 1)" and sd: "2 ^ d * (hi - lo) < int n"
    unfolding fits_def by blast
  define s where "s = hi - lo"
  define m where "m = s div 2"
  have s: "1 \<le> s" using assms(2) by (simp add: s_def)
  have sd': "2 ^ d * s < int n" using sd by (simp add: s_def)
  have hf: "half lo hi = lo + m"
    by (simp add: half_def s_def m_def)
  have m1: "0 \<le> m" "2 * m \<le> s" "2 * (s - m - 1) \<le> s" "m < s"
    using s by (simp_all add: m_def)
  have p0: "(0::int) \<le> 2 ^ d" by simp
  have "(2::int) ^ d * 1 \<le> 2 ^ d * s"
    using s by (intro mult_left_mono) simp_all
  with sd' have pn: "(2::int) ^ d < int n" by linarith
  with n have "(2::int) ^ d < 1073741824" by linarith
  then have "(2::int) ^ d < 2 ^ 30" by simp
  then have "d < 30" by (simp only: power_strict_increasing_iff)
  then have "d + 1 \<le> 30" by simp
  then have "(2::int) ^ (d + 1) \<le> 2 ^ 30"
    by (intro power_increasing) simp_all
  with vd have v30: "v < 1073741824" by simp
  have vd': "v < 2 * 2 ^ d" using vd by simp
  from vd' pn have v2n: "v + 1 < 2 * int n" by linarith
  have c: "2 * v + 1 < 2 ^ (d + 1 + 1)" using vd' by simp
  have l1: "2 ^ (d + 1) * m < int n"
  proof -
    have "2 ^ (d + 1) * m = (2::int) ^ d * (2 * m)" by simp
    also have "\<dots> \<le> 2 ^ d * s"
      using m1 by (intro mult_left_mono) simp_all
    also note sd'
    finally show ?thesis .
  qed
  have r1: "2 ^ (d + 1) * (s - m - 1) < int n"
  proof -
    have "2 ^ (d + 1) * (s - m - 1) = (2::int) ^ d * (2 * (s - m - 1))" by simp
    also have "\<dots> \<le> 2 ^ d * s"
      using m1 by (intro mult_left_mono) simp_all
    also note sd'
    finally show ?thesis .
  qed
  have e1: "lo + m - lo = m" by simp
  have e2: "hi - (lo + m + 1) = s - m - 1" by (simp add: s_def)
  have c': "2 * v < 2 ^ (d + 1 + 1)" using c by simp
  have l2: "2 ^ (d + 1) * (lo + m - lo) < int n" unfolding e1 by (rule l1)
  have r2: "2 ^ (d + 1) * (hi - (lo + m + 1)) < int n" unfolding e2 by (rule r1)
  have "\<exists>d'. 2 * v < 2 ^ (d' + 1) \<and> 2 ^ d' * (lo + m - lo) < int n"
    by (intro exI [of _ "d + 1"] conjI c' l2)
  then show "fits n (2 * v) lo (half lo hi)"
    using v v30 v2n lo hi n m1 unfolding fits_def hf s_def by simp
  have "\<exists>d'. 2 * v + 1 < 2 ^ (d' + 1) \<and> 2 ^ d' * (hi - (lo + m + 1)) < int n"
    by (intro exI [of _ "d + 1"] conjI c r2)
  then show "fits n (2 * v + 1) (half lo hi + 1) hi"
    using v v30 v2n lo hi n m1 unfolding fits_def hf s_def by simp
qed

lemma node_arith:
  assumes "fits n v lo hi" "lo < hi"
  shows "i32 (2 * v) = 2 * v" "i32 (v * 2) = 2 * v"
    "i32 (2 * v + 1) = 2 * v + 1"
    "mid lo hi = half lo hi" "i32 (half lo hi + 1) = half lo hi + 1"
proof -
  from fits_children [OF assms] have
    a: "1 \<le> 2 * v" "2 * v + 1 < 2147483648"
    by (simp_all add: fits_def)
  from assms have b: "0 \<le> lo" "lo \<le> hi" "hi < 2147483648"
    by (simp_all add: fits_def)
  show "i32 (2 * v) = 2 * v" using a by (intro i32_id) simp_all
  then show "i32 (v * 2) = 2 * v" by (simp add: mult.commute)
  show "i32 (2 * v + 1) = 2 * v + 1" using a by (intro i32_id) simp_all
  show "mid lo hi = half lo hi" by (rule mid_half [OF b])
  from half_bounds [OF assms(2)] b
  show "i32 (half lo hi + 1) = half lo hi + 1" by (intro i32_id) simp_all
qed

lemma alloc_fits: "alloc n t \<Longrightarrow> fits n v lo hi \<Longrightarrow> t v \<noteq> None"
  by (simp add: alloc_def fits_def)

lemma alloc_dom: "alloc n t \<Longrightarrow> dom t' = dom t \<Longrightarrow> alloc n t'"
  by (auto simp: alloc_def dom_def set_eq_iff)

lemma alloc_assign:
  "n \<le> 1073741824 \<Longrightarrow> alloc n (vector (replicate ((4 * n) mod 2 ^ 64) 0))"
  by (simp add: alloc_def vector_def)

subsection \<open>The invariant\<close>

lemma seg_inv_root: "seg_inv t A v lo hi \<Longrightarrow> t v \<noteq> None"
  by (subst (asm) seg_inv.simps) (auto split: if_splits option.splits)

lemma seg_inv_cong:
  assumes "1 \<le> v"
    and "\<And>w. under v w \<Longrightarrow> t' w = t w"
    and "\<And>i. lo \<le> i \<Longrightarrow> i \<le> hi \<Longrightarrow> vector A' i = vector A i"
  shows "seg_inv t' A' v lo hi = seg_inv t A v lo hi"
  using assms
proof (induction t A v lo hi rule: seg_inv.induct)
  case (1 t A v lo hi)
  show ?case
  proof (cases "lo < hi")
    case False
    show ?thesis
    proof (cases "lo = hi")
      case True
      with "1.prems"(2) [OF under_refl] "1.prems"(3) [of lo] show ?thesis
        by (simp add: seg_inv.simps [of _ _ v hi hi] split: option.splits)
    next
      case False
      with \<open>\<not> lo < hi\<close> show ?thesis
        by (simp add: seg_inv.simps [of _ _ v lo hi])
    qed
  next
    case True
    note mb = half_bounds [OF True]
    have v2: "1 \<le> 2 * v" "1 \<le> 2 * v + 1" using "1.prems"(1) by simp_all
    have L: "seg_inv t' A' (2 * v) lo (half lo hi) = seg_inv t A (2 * v) lo (half lo hi)"
      using True mb "1.prems" under_left [of v]
      by (intro "1.IH"(1) v2) simp_all
    have R: "seg_inv t' A' (2 * v + 1) (half lo hi + 1) hi = seg_inv t A (2 * v + 1) (half lo hi + 1) hi"
      using True mb "1.prems" under_right [of v]
      by (intro "1.IH"(2) v2) simp_all
    have "t' v = t v" "t' (2 * v) = t (2 * v)" "t' (2 * v + 1) = t (2 * v + 1)"
      using "1.prems"(1) under_refl under_left [OF _ under_refl] under_right [OF _ under_refl]
      by (simp_all add: "1.prems"(2))
    with L R True show ?thesis
      by (simp add: seg_inv.simps [of _ _ v lo hi] split: option.splits)
  qed
qed

lemma seg_inv_total:
  "seg_inv t A v lo hi \<Longrightarrow> 0 \<le> lo \<Longrightarrow> hi < int (length A) \<Longrightarrow>
   t v = Some (sum_list (slice A lo hi))"
proof (induction t A v lo hi rule: seg_inv.induct)
  case (1 t A v lo hi)
  show ?case
  proof (cases "lo < hi")
    case False
    with "1.prems" show ?thesis
      by (simp add: seg_inv.simps [of _ _ v lo hi] vector_def slice_single split: if_splits)
  next
    case True
    note mb = half_bounds [OF True]
    from True "1.prems"(1) have
      L: "seg_inv t A (2 * v) lo (half lo hi)" and
      R: "seg_inv t A (2 * v + 1) (half lo hi + 1) hi" and
      C: "(case (t (2 * v), t (2 * v + 1)) of (Some x, Some y) \<Rightarrow> t v = Some (x + y) | _ \<Rightarrow> False)"
      by (simp_all add: seg_inv.simps [of _ _ v lo hi])
    have l: "t (2 * v) = Some (sum_list (slice A lo (half lo hi)))"
      using True mb "1.prems" L by (intro "1.IH"(1)) simp_all
    have r: "t (2 * v + 1) = Some (sum_list (slice A (half lo hi + 1) hi))"
      using True mb "1.prems" R by (intro "1.IH"(2)) simp_all
    have "slice A lo hi = slice A lo (half lo hi) @ slice A (half lo hi + 1) hi"
      using mb "1.prems" by (intro slice_split) simp_all
    with C l r show ?thesis by simp
  qed
qed

lemma put_some: "t v = Some y \<Longrightarrow> put t v x = Inr (t(v \<mapsto> x))"
  by (simp add: put_def)

lemma dom_upd_same: "t v = Some y \<Longrightarrow> dom (t(v \<mapsto> x)) = dom t"
  by auto

lemma pull_some:
  "t (2 * v) = Some a \<Longrightarrow> t (2 * v + 1) = Some b \<Longrightarrow> t v = Some y \<Longrightarrow>
   i32 (2 * v) = 2 * v \<Longrightarrow> i32 (2 * v + 1) = 2 * v + 1 \<Longrightarrow>
   pull t v = Inr (t(v \<mapsto> a + b))"
  by (simp add: pull_def at_def put_def)

lemma seg_inv_pull:
  assumes v: "1 \<le> v" and lh: "lo < hi"
    and L: "seg_inv t A (2 * v) lo (half lo hi)"
    and R: "seg_inv t A (2 * v + 1) (half lo hi + 1) hi"
    and a: "t (2 * v) = Some a" and b: "t (2 * v + 1) = Some b"
  shows "seg_inv (t(v \<mapsto> a + b)) A v lo hi"
proof -
  let ?t = "t(v \<mapsto> a + b)"
  have nl: "\<And>w. under (2 * v) w \<Longrightarrow> w \<noteq> v"
    using under_le v by fastforce
  have nr: "\<And>w. under (2 * v + 1) w \<Longrightarrow> w \<noteq> v"
    using under_le v by fastforce
  have L': "seg_inv ?t A (2 * v) lo (half lo hi)"
    using v nl L by (subst seg_inv_cong [where t = t and A = A]) simp_all
  have R': "seg_inv ?t A (2 * v + 1) (half lo hi + 1) hi"
    using v nr R by (subst seg_inv_cong [where t = t and A = A]) simp_all
  from L' R' a b lh v show ?thesis
    by (subst seg_inv.simps) simp
qed

subsection \<open>build, sum and update on a node\<close>

lemma build_correct:
  assumes "fits n v lo hi" "alloc n t" "length A = n"
  shows "\<exists>t'. build (vector A) t v lo hi = Some (Inr t') \<and> seg_inv t' A v lo hi \<and>
              (\<forall>w. \<not> under v w \<longrightarrow> t' w = t w) \<and> dom t' = dom t"
  using assms
proof (induction "nat (hi - lo)" arbitrary: t v lo hi rule: less_induct)
  case less
  from less.prems(1) have v: "1 \<le> v" and lo: "0 \<le> lo" and lh: "lo \<le> hi" and hi: "hi < int n"
    by (simp_all add: fits_def)
  from alloc_fits [OF less.prems(2,1)] obtain y where tv: "t v = Some y" by auto
  show ?case
  proof (cases "lo = hi")
    case True
    have "vector A lo = Some (A ! nat lo)"
      using lo hi True less.prems(3) by (simp add: vector_def)
    then show ?thesis
      using True tv under_refl [of v]
      by (subst build.simps) (auto simp: at_def put_def seg_inv.simps [of _ _ v hi hi])
  next
    case False
    with lh have lt: "lo < hi" by simp
    note mb = half_bounds [OF lt]
    note fc = fits_children [OF less.prems(1) lt]
    note na = node_arith [OF less.prems(1) lt]
    obtain t1 where
      b1: "build (vector A) t (2 * v) lo (half lo hi) = Some (Inr t1)" and
      i1: "seg_inv t1 A (2 * v) lo (half lo hi)" and
      f1: "\<forall>w. \<not> under (2 * v) w \<longrightarrow> t1 w = t w" and
      d1: "dom t1 = dom t"
      using less.hyps [OF _ fc(1) less.prems(2,3)] mb by auto
    have al1: "alloc n t1" by (rule alloc_dom [OF less.prems(2) d1])
    obtain t2 where
      b2: "build (vector A) t1 (2 * v + 1) (half lo hi + 1) hi = Some (Inr t2)" and
      i2: "seg_inv t2 A (2 * v + 1) (half lo hi + 1) hi" and
      f2: "\<forall>w. \<not> under (2 * v + 1) w \<longrightarrow> t2 w = t1 w" and
      d2: "dom t2 = dom t1"
      using less.hyps [OF _ fc(2) al1 less.prems(3)] mb by auto
    have i1': "seg_inv t2 A (2 * v) lo (half lo hi)"
    proof -
      have "\<And>w. under (2 * v) w \<Longrightarrow> t2 w = t1 w"
        using f2 under_disjoint [OF v] by blast
      with v i1 show ?thesis
        by (subst seg_inv_cong [where t = t1 and A = A]) simp_all
    qed
    from seg_inv_root [OF i1'] obtain a where a: "t2 (2 * v) = Some a" by auto
    from seg_inv_root [OF i2] obtain b where b: "t2 (2 * v + 1) = Some b" by auto
    have "t2 v = t v"
      using f1 f2 under_le [of "2 * v" v] under_le [of "2 * v + 1" v] v by fastforce
    with tv have t2v: "t2 v = Some y" by simp
    let ?t' = "t2(v \<mapsto> a + b)"
    have run: "build (vector A) t v lo hi = Some (Inr ?t')"
      using False b1 b2 pull_some [OF a b t2v na(1,3)]
      by (subst build.simps) (simp add: na Let_def)
    have inv: "seg_inv ?t' A v lo hi"
      by (rule seg_inv_pull [OF v lt i1' i2 a b])
    have frame: "\<forall>w. \<not> under v w \<longrightarrow> ?t' w = t w"
    proof (intro allI impI)
      fix w
      assume nu: "\<not> under v w"
      then have "\<not> under (2 * v) w" "\<not> under (2 * v + 1) w" "w \<noteq> v"
        using under_left [OF v] under_right [OF v] under_refl [of v] by auto
      with f1 f2 show "?t' w = t w" by simp
    qed
    have "dom ?t' = dom t"
      using dom_upd_same [of t2 v y] t2v d1 d2 by simp
    with run inv frame show ?thesis by blast
  qed
qed

lemma sum_correct:
  assumes "seg_inv t A v lo hi" "fits (length A) v lo hi" "lo \<le> l" "r \<le> hi"
  shows "sum_st t v lo hi l r = Some (Inr (sum_list (slice A l r)))"
  using assms
proof (induction "nat (hi - lo)" arbitrary: v lo hi l r rule: less_induct)
  case less
  from less.prems(2) have lo: "0 \<le> lo" and hi: "hi < int (length A)"
    by (simp_all add: fits_def)
  show ?case
  proof (cases "r < l")
    case True
    then show ?thesis
      by (subst sum_st.simps) (simp add: slice_empty)
  next
    case nonempty: False
    show ?thesis
    proof (cases "l = lo \<and> r = hi")
      case True
      with nonempty seg_inv_total [OF less.prems(1) lo hi] show ?thesis
        by (subst sum_st.simps) (simp add: at_def)
    next
      case False
      with nonempty less.prems have lt: "lo < hi" by auto
      note mb = half_bounds [OF lt]
      note fc = fits_children [OF less.prems(2) lt]
      note na = node_arith [OF less.prems(2) lt]
      from lt less.prems(1) have
        L: "seg_inv t A (2 * v) lo (half lo hi)" and
        R: "seg_inv t A (2 * v + 1) (half lo hi + 1) hi"
        by (simp_all add: seg_inv.simps [of _ _ v lo hi])
      have s1: "sum_st t (2 * v) lo (half lo hi) l (min r (half lo hi)) =
                Some (Inr (sum_list (slice A l (min r (half lo hi)))))"
        using mb less.prems by (intro less.hyps L fc(1)) simp_all
      have s2: "sum_st t (2 * v + 1) (half lo hi + 1) hi (max l (half lo hi + 1)) r =
                Some (Inr (sum_list (slice A (max l (half lo hi + 1)) r)))"
        using mb less.prems by (intro less.hyps R fc(2)) simp_all
      have sp: "slice A l r = slice A l (min r (half lo hi)) @ slice A (max l (half lo hi + 1)) r"
      proof (cases "r \<le> half lo hi")
        case True
        then show ?thesis by (simp add: slice_empty min_def max_def)
      next
        case r: False
        show ?thesis
        proof (cases "l \<le> half lo hi")
          case True
          with r lo less.prems show ?thesis
            by (simp add: min_def max_def slice_split [of l "half lo hi" r])
        next
          case False
          then have "max l (half lo hi + 1) = l" "min r (half lo hi) = half lo hi"
            using r by simp_all
          with False show ?thesis by (simp add: slice_empty)
        qed
      qed
      from nonempty False s1 s2 show ?thesis
        by (subst sum_st.simps) (auto simp: sp Let_def na)
    qed
  qed
qed

lemma sum_defined:
  assumes "fits n v lo hi" "alloc n t" "lo \<le> l" "r \<le> hi"
  shows "\<exists>s. sum_st t v lo hi l r = Some (Inr s)"
  using assms
proof (induction "nat (hi - lo)" arbitrary: v lo hi l r rule: less_induct)
  case less
  from alloc_fits [OF less.prems(2,1)] obtain y where tv: "t v = Some y" by auto
  show ?case
  proof (cases "r < l \<or> (l = lo \<and> r = hi)")
    case True
    with tv show ?thesis
      by (subst sum_st.simps) (auto simp: at_def)
  next
    case False
    with less.prems have lt: "lo < hi" by auto
    note mb = half_bounds [OF lt]
    note fc = fits_children [OF less.prems(1) lt]
    note na = node_arith [OF less.prems(1) lt]
    obtain a where s1: "sum_st t (2 * v) lo (half lo hi) l (min r (half lo hi)) = Some (Inr a)"
      using less.hyps [OF _ fc(1) less.prems(2), of l "min r (half lo hi)"] mb less.prems by auto
    obtain b where s2: "sum_st t (2 * v + 1) (half lo hi + 1) hi (max l (half lo hi + 1)) r = Some (Inr b)"
      using less.hyps [OF _ fc(2) less.prems(2), of "max l (half lo hi + 1)" r] mb less.prems by auto
    from False s1 s2 show ?thesis
      by (subst sum_st.simps) (auto simp: Let_def na)
  qed
qed

lemma update_correct:
  assumes "fits n v lo hi" "alloc n t" "lo \<le> pos" "pos \<le> hi" "length A = n"
  shows "\<exists>t'. update t v lo hi pos val = Some (Inr t') \<and> dom t' = dom t \<and>
              (\<forall>w. \<not> under v w \<longrightarrow> t' w = t w) \<and>
              (seg_inv t A v lo hi \<longrightarrow> seg_inv t' (A[nat pos := scast val]) v lo hi)"
  using assms
proof (induction "nat (hi - lo)" arbitrary: v lo hi rule: less_induct)
  case less
  let ?A = "A[nat pos := scast val]"
  from less.prems(1) have v: "1 \<le> v" and lo: "0 \<le> lo" and hi: "hi < int n"
    by (simp_all add: fits_def)
  from alloc_fits [OF less.prems(2,1)] obtain y where tv: "t v = Some y" by auto
  from lo less.prems(3) have p0: "0 \<le> pos" by simp
  show ?case
  proof (cases "lo = hi")
    case True
    with less.prems have p: "pos = hi" by simp
    have "vector ?A hi = Some (scast val)"
      using p p0 hi True less.prems(5) by (simp add: vector_update)
    then have "seg_inv (t(v \<mapsto> scast val)) ?A v hi hi"
      by (simp add: seg_inv.simps [of _ _ v hi hi])
    with True tv show ?thesis
      using under_refl [of v]
      by (subst update.simps) (auto simp: put_def)
  next
    case False
    with less.prems have lt: "lo < hi" by simp
    note mb = half_bounds [OF lt]
    note fc = fits_children [OF less.prems(1) lt]
    note na = node_arith [OF less.prems(1) lt]
    let ?c = "if pos \<le> half lo hi then 2 * v else 2 * v + 1"
    let ?step = "if pos \<le> half lo hi then update t (2 * v) lo (half lo hi) pos val
                 else update t (2 * v + 1) (half lo hi + 1) hi pos val"
    have "\<exists>t1. ?step = Some (Inr t1) \<and> dom t1 = dom t \<and>
               (\<forall>w. \<not> under ?c w \<longrightarrow> t1 w = t w) \<and>
               (seg_inv t A v lo hi \<longrightarrow>
                  seg_inv t1 ?A (2 * v) lo (half lo hi) \<and>
                  seg_inv t1 ?A (2 * v + 1) (half lo hi + 1) hi)"
    proof (cases "pos \<le> half lo hi")
      case True
      obtain t1 where
        u: "update t (2 * v) lo (half lo hi) pos val = Some (Inr t1)" and
        d: "dom t1 = dom t" and
        f: "\<forall>w. \<not> under (2 * v) w \<longrightarrow> t1 w = t w" and
        i: "seg_inv t A (2 * v) lo (half lo hi) \<longrightarrow> seg_inv t1 ?A (2 * v) lo (half lo hi)"
        using less.hyps [OF _ fc(1) less.prems(2,3) True less.prems(5)] mb by auto
      have "seg_inv t1 ?A (2 * v + 1) (half lo hi + 1) hi = seg_inv t A (2 * v + 1) (half lo hi + 1) hi"
      proof (rule seg_inv_cong)
        show "1 \<le> 2 * v + 1" using v by simp
        show "\<And>w. under (2 * v + 1) w \<Longrightarrow> t1 w = t w"
          using f under_disjoint [OF v] by blast
        show "\<And>i. half lo hi + 1 \<le> i \<Longrightarrow> i \<le> hi \<Longrightarrow> vector ?A i = vector A i"
          using True p0 by (simp add: vector_update)
      qed
      with i lt have "seg_inv t A v lo hi \<longrightarrow>
                  seg_inv t1 ?A (2 * v) lo (half lo hi) \<and>
                  seg_inv t1 ?A (2 * v + 1) (half lo hi + 1) hi"
        by (simp add: seg_inv.simps [of t A v lo hi])
      with True u d f show ?thesis by simp
    next
      case False
      then have p: "half lo hi + 1 \<le> pos" by simp
      obtain t1 where
        u: "update t (2 * v + 1) (half lo hi + 1) hi pos val = Some (Inr t1)" and
        d: "dom t1 = dom t" and
        f: "\<forall>w. \<not> under (2 * v + 1) w \<longrightarrow> t1 w = t w" and
        i: "seg_inv t A (2 * v + 1) (half lo hi + 1) hi \<longrightarrow> seg_inv t1 ?A (2 * v + 1) (half lo hi + 1) hi"
        using less.hyps [OF _ fc(2) less.prems(2) p less.prems(4,5)] mb by auto
      have "seg_inv t1 ?A (2 * v) lo (half lo hi) = seg_inv t A (2 * v) lo (half lo hi)"
      proof (rule seg_inv_cong)
        show "1 \<le> 2 * v" using v by simp
        show "\<And>w. under (2 * v) w \<Longrightarrow> t1 w = t w"
          using f under_disjoint [OF v] by blast
        show "\<And>i. lo \<le> i \<Longrightarrow> i \<le> half lo hi \<Longrightarrow> vector ?A i = vector A i"
          using False p0 by (simp add: vector_update)
      qed
      with i lt have "seg_inv t A v lo hi \<longrightarrow>
                  seg_inv t1 ?A (2 * v) lo (half lo hi) \<and>
                  seg_inv t1 ?A (2 * v + 1) (half lo hi + 1) hi"
        by (simp add: seg_inv.simps [of t A v lo hi])
      with False u d f show ?thesis by simp
    qed
    then obtain t1 where
      u: "?step = Some (Inr t1)" and
      d: "dom t1 = dom t" and
      f: "\<forall>w. \<not> under ?c w \<longrightarrow> t1 w = t w" and
      i: "seg_inv t A v lo hi \<longrightarrow>
            seg_inv t1 ?A (2 * v) lo (half lo hi) \<and> seg_inv t1 ?A (2 * v + 1) (half lo hi + 1) hi"
      by blast
    have al1: "alloc n t1" by (rule alloc_dom [OF less.prems(2) d])
    from alloc_fits [OF al1 fc(1)] obtain a where a: "t1 (2 * v) = Some a" by auto
    from alloc_fits [OF al1 fc(2)] obtain b where b: "t1 (2 * v + 1) = Some b" by auto
    from alloc_fits [OF al1 less.prems(1)] obtain y1 where t1v: "t1 v = Some y1" by auto
    let ?t' = "t1(v \<mapsto> a + b)"
    have run: "update t v lo hi pos val = Some (Inr ?t')"
      using \<open>lo \<noteq> hi\<close> u pull_some [OF a b t1v na(1,3)]
      by (subst update.simps) (auto simp: Let_def na split: if_splits)
    have dm: "dom ?t' = dom t"
      using dom_upd_same [of t1 v y1] t1v d by simp
    have frame: "\<forall>w. \<not> under v w \<longrightarrow> ?t' w = t w"
    proof (intro allI impI)
      fix w
      assume nu: "\<not> under v w"
      then have "\<not> under ?c w" "w \<noteq> v"
        using under_left [OF v] under_right [OF v] under_refl [of v] by auto
      with f show "?t' w = t w" by simp
    qed
    have inv: "seg_inv t A v lo hi \<longrightarrow> seg_inv ?t' ?A v lo hi"
      using i seg_inv_pull [OF v lt _ _ a b, of ?A] by blast
    from run dm frame inv show ?thesis by blast
  qed
qed

subsection \<open>Arguments outside the node's range\<close>

lemma half_range: "lo \<le> hi \<Longrightarrow> lo \<le> half lo hi \<and> half lo hi \<le> hi"
  by (simp add: half_def)

lemma sum_low_diverges_aux:
  assumes "sum_st t v lo hi l r = Some y"
  shows "\<not> (0 \<le> lo \<and> lo \<le> hi \<and> hi < 2147483648 \<and> l < lo \<and> l \<le> r)"
proof (rule sum_st.raw_induct
    [where P = "\<lambda>t v lo hi l r y.
       \<not> (0 \<le> lo \<and> lo \<le> hi \<and> hi < 2147483648 \<and> l < lo \<and> l \<le> r)", OF _ assms])
  fix f :: "vec \<Rightarrow> int \<Rightarrow> int \<Rightarrow> int \<Rightarrow> int \<Rightarrow> int \<Rightarrow> ll outcome"
  fix t v lo hi l r y
  assume IH: "\<And>t v lo hi l r y. f t v lo hi l r = Some y \<Longrightarrow>
    \<not> (0 \<le> lo \<and> lo \<le> hi \<and> hi < 2147483648 \<and> l < lo \<and> l \<le> r)"
  assume step: "(if r < l then Some (Inr 0)
      else if l = lo \<and> r = hi then Some (at t v)
      else let tm = mid lo hi
           in and_then (f t (i32 (2 * v)) lo tm l (min r tm))
                (\<lambda>a. and_then
                   (f t (i32 (i32 (2 * v) + 1)) (i32 (tm + 1)) hi (max l (i32 (tm + 1))) r)
                   (\<lambda>b. Some (Inr (a + b))))) = Some y"
  show "\<not> (0 \<le> lo \<and> lo \<le> hi \<and> hi < 2147483648 \<and> l < lo \<and> l \<le> r)"
  proof
    assume a: "0 \<le> lo \<and> lo \<le> hi \<and> hi < 2147483648 \<and> l < lo \<and> l \<le> r"
    then have mh: "mid lo hi = half lo hi" by (intro mid_half) simp_all
    from a step have "and_then (f t (i32 (2 * v)) lo (half lo hi) l (min r (half lo hi)))
        (\<lambda>a. and_then
           (f t (i32 (i32 (2 * v) + 1)) (i32 (half lo hi + 1)) hi
              (max l (i32 (half lo hi + 1))) r)
           (\<lambda>b. Some (Inr (a + b)))) = Some y"
      by (simp add: Let_def mh)
    then obtain z where "f t (i32 (2 * v)) lo (half lo hi) l (min r (half lo hi)) = Some z"
      using and_then_Some by fastforce
    from IH [OF this] a half_range [of lo hi] show False by simp
  qed
qed

lemma sum_low_diverges:
  "0 \<le> lo \<Longrightarrow> lo \<le> hi \<Longrightarrow> hi < 2147483648 \<Longrightarrow> l < lo \<Longrightarrow> l \<le> r \<Longrightarrow>
   sum_st t v lo hi l r = None"
  using sum_low_diverges_aux [of t v lo hi l r] by (cases "sum_st t v lo hi l r") auto

lemma update_clamp_right:
  "0 \<le> lo \<Longrightarrow> lo \<le> hi \<Longrightarrow> hi < 2147483648 \<Longrightarrow> hi \<le> pos \<Longrightarrow>
   update t v lo hi pos val = update t v lo hi hi val"
proof (induction "nat (hi - lo)" arbitrary: t v lo hi rule: less_induct)
  case less
  show ?case
  proof (cases "lo = hi")
    case True
    then show ?thesis by (simp add: update.simps [of t v hi hi])
  next
    case False
    with less.prems have lt: "lo < hi" by simp
    note mb = half_bounds [OF lt]
    have mh: "mid lo hi = half lo hi" by (rule mid_half [OF less.prems(1,2,3)])
    have ih: "i32 (half lo hi + 1) = half lo hi + 1"
      using mb less.prems by (intro i32_id) simp_all
    have "update t (i32 (i32 (2 * v) + 1)) (half lo hi + 1) hi pos val =
          update t (i32 (i32 (2 * v) + 1)) (half lo hi + 1) hi hi val"
      using mb less.prems by (intro less.hyps) simp_all
    with mb less.prems False show ?thesis
      by (simp add: update.simps [of t v lo hi] mh ih)
  qed
qed

lemma update_clamp_left:
  "0 \<le> lo \<Longrightarrow> lo \<le> hi \<Longrightarrow> hi < 2147483648 \<Longrightarrow> pos \<le> lo \<Longrightarrow>
   update t v lo hi pos val = update t v lo hi lo val"
proof (induction "nat (hi - lo)" arbitrary: t v lo hi rule: less_induct)
  case less
  show ?case
  proof (cases "lo = hi")
    case True
    then show ?thesis by (simp add: update.simps [of t v hi hi])
  next
    case False
    with less.prems have lt: "lo < hi" by simp
    note mb = half_bounds [OF lt]
    have mh: "mid lo hi = half lo hi" by (rule mid_half [OF less.prems(1,2,3)])
    have "update t (i32 (2 * v)) lo (half lo hi) pos val =
          update t (i32 (2 * v)) lo (half lo hi) lo val"
      using mb less.prems by (intro less.hyps) simp_all
    with mb less.prems False show ?thesis
      by (simp add: update.simps [of t v lo hi] mh)
  qed
qed

lemma root_hi:
  assumes "1 \<le> n" "n \<le> 1073741824"
  shows "i32 (int n - 1) = int n - 1" "0 \<le> int n - 1" "int n - 1 < 2147483648"
  using assms by (simp_all add: i32_id)

lemma update_pos_clamp:
  assumes "1 \<le> n" "n \<le> 1073741824"
  shows "update_pos n t pos val = update_pos n t (max 0 (min pos (int n - 1))) val"
proof -
  note rh = root_hi [OF assms]
  consider "pos \<le> 0" | "0 < pos" "pos < int n - 1" | "int n - 1 \<le> pos" by linarith
  then show ?thesis
  proof cases
    case 1
    then have "max 0 (min pos (int n - 1)) = 0" using rh by simp
    with update_clamp_left [OF _ rh(2,3) 1] show ?thesis by (simp add: update_pos_def rh)
  next
    case 2
    then have "max 0 (min pos (int n - 1)) = pos" by simp
    then show ?thesis by simp
  next
    case 3
    then have "max 0 (min pos (int n - 1)) = int n - 1" using rh by simp
    with update_clamp_right [OF _ rh(2,3) 3] show ?thesis by (simp add: update_pos_def rh)
  qed
qed

subsection \<open>The tree as a whole\<close>

lemma length_contents: "length (contents A us) = length A"
  by (induction A us rule: contents.induct) simp_all

lemma construct_ok:
  assumes "1 \<le> length A" "length A \<le> 1073741824"
  shows "\<exists>t. SegmentTree A = Some (Inr t) \<and> represents t A"
proof -
  let ?t0 = "vector (replicate ((4 * length A) mod 2 ^ 64) 0)"
  note al = alloc_assign [OF assms(2)]
  from build_correct [OF fits_root [OF assms] al refl]
  obtain t where
    b: "build (vector A) ?t0 1 0 (int (length A) - 1) = Some (Inr t)"
    and i: "seg_inv t A 1 0 (int (length A) - 1)"
    and d: "dom t = dom ?t0"
    by blast
  from alloc_dom [OF al d] have "alloc (length A) t" .
  with assms b i show ?thesis
    by (simp add: SegmentTree_def represents_def Let_def root_hi)
qed

lemma update_pos_ok:
  assumes "represents t B" "0 \<le> pos" "pos < int (length B)"
  shows "\<exists>t'. update_pos (length B) t pos val = Some (Inr t') \<and> dom t' = dom t \<and>
              represents t' (B[nat pos := scast val])"
proof -
  from assms(1) have n: "1 \<le> length B" "length B \<le> 1073741824"
    and al: "alloc (length B) t"
    and inv: "seg_inv t B 1 0 (int (length B) - 1)"
    by (simp_all add: represents_def)
  from assms(3) have "pos \<le> int (length B) - 1" by simp
  from update_correct [OF fits_root [OF n] al assms(2) this refl, of val]
  obtain t' where
    u: "update t 1 0 (int (length B) - 1) pos val = Some (Inr t')" and
    d: "dom t' = dom t" and
    i: "seg_inv t B 1 0 (int (length B) - 1) \<longrightarrow>
        seg_inv t' (B[nat pos := scast val]) 1 0 (int (length B) - 1)"
    by blast
  from alloc_dom [OF al d] have "alloc (length B) t'" .
  with u d i inv n show ?thesis
    by (simp add: update_pos_def represents_def root_hi)
qed

lemma updates_ok:
  "represents t B \<Longrightarrow> valid_calls (length B) us \<Longrightarrow>
   \<exists>t'. updates (length B) t us = Some (Inr t') \<and> represents t' (contents B us)"
proof (induction us arbitrary: t B)
  case Nil
  then show ?case by simp
next
  case (Cons u us)
  obtain pos val where u: "u = (pos, val)" by (cases u)
  from Cons.prems(2) u have p: "0 \<le> pos" "pos < int (length B)"
    and rest: "valid_calls (length B) us"
    by (simp_all add: valid_calls_def)
  from update_pos_ok [OF Cons.prems(1) p, of val] obtain t1 where
    u1: "update_pos (length B) t pos val = Some (Inr t1)" and
    r1: "represents t1 (B[nat pos := scast val])"
    by blast
  from Cons.IH [OF r1] rest obtain t' where
    "updates (length B) t1 us = Some (Inr t')"
    "represents t' (contents (B[nat pos := scast val]) us)"
    by auto
  with u u1 show ?case by simp
qed

lemma tree_after_ok:
  assumes "1 \<le> length A" "length A \<le> 1073741824" "valid_calls (length A) us"
  shows "\<exists>t. tree_after A us = Some (Inr t) \<and> represents t (contents A us)"
proof -
  from construct_ok [OF assms(1,2)] obtain t0 where
    c: "SegmentTree A = Some (Inr t0)" and r: "represents t0 A"
    by blast
  from updates_ok [OF r assms(3)] c show ?thesis
    by (simp add: tree_after_def)
qed

lemma query_ok:
  assumes "represents t B" "0 \<le> l" "r < int (length B)"
  shows "query (length B) t l r = Some (Inr (sum_list (slice B l r)))"
proof -
  from assms(1) have n: "1 \<le> length B" "length B \<le> 1073741824"
    and inv: "seg_inv t B 1 0 (int (length B) - 1)"
    by (simp_all add: represents_def)
  from assms(3) have "r \<le> int (length B) - 1" by simp
  from sum_correct [OF inv fits_root [OF n] assms(2) this] show ?thesis
    by (simp add: query_def root_hi [OF n])
qed

lemma query_point:
  assumes "represents t B" "0 \<le> p" "p < int (length B)"
  shows "query (length B) t p p = Some (Inr (B ! nat p))"
  using query_ok [OF assms(1,2,3)] assms by (simp add: slice_single)

subsection \<open>One element more than \<open>2^30\<close>\<close>

text \<open>
  On an array of \<open>2^30 + 1\<close> elements the leftmost node of depth \<open>k\<close> is
  \<open>(2^k, 0, 2^(30 - k))\<close>. At depth \<open>30\<close> it covers \<open>[0, 1]\<close>, and its left child
  gets the index \<open>2^30 * 2\<close>, which is \<open>-2^31\<close> in 32 bits: the leaf
  \<open>build(arr, -2^31, 0, 0)\<close> subscripts the tree outside its storage. Nothing was
  stored before, so the whole construction stops there.
\<close>

lemma build_left_spine:
  assumes "t (- 2147483648) = None" "vector A 0 \<noteq> None" "j \<le> 30"
  shows "build (vector A) t (2 ^ (30 - j)) 0 (2 ^ j) = Some (Inl (OutOfBounds (- 2147483648)))"
  using assms(3)
proof (induction j)
  case 0
  from assms(2) obtain x where x: "vector A 0 = Some x" by auto
  have leaf: "build (vector A) t (- 2147483648) 0 0 = Some (Inl (OutOfBounds (- 2147483648)))"
    using assms(1) x by (subst build.simps) (simp add: at_def put_def)
  have "i32 (1073741824 * 2) = - 2147483648" by (simp add: i32_def)
  moreover have "mid 0 1 = 0" by (simp add: mid_def i32_def signed_divide_int_def)
  ultimately show ?case
    using leaf by (subst build.simps) (simp add: Let_def)
next
  case (Suc j)
  then have j: "j < 30" by simp
  then have IH: "build (vector A) t (2 ^ (30 - j)) 0 (2 ^ j) = Some (Inl (OutOfBounds (- 2147483648)))"
    using Suc.IH by simp
  have p1: "(2::int) ^ Suc j \<le> 2 ^ 30" using Suc.prems by (intro power_increasing) simp_all
  have p2: "(2::int) ^ (30 - j) \<le> 2 ^ 30" by (intro power_increasing) simp_all
  have m: "mid 0 (2 ^ Suc j) = 2 ^ j"
  proof -
    have "mid 0 (2 ^ Suc j) = half 0 (2 ^ Suc j)"
      using p1 by (intro mid_half) simp_all
    then show ?thesis by (simp add: half_def)
  qed
  have "(2::int) ^ (30 - Suc j) * 2 = 2 ^ (Suc (30 - Suc j))" by simp
  also have "Suc (30 - Suc j) = 30 - j" using j by simp
  finally have d: "(2::int) ^ (30 - Suc j) * 2 = 2 ^ (30 - j)" .
  have v: "i32 (2 ^ (30 - Suc j) * 2) = 2 ^ (30 - j)"
  proof -
    have "- 2147483648 \<le> (0::int)" by simp
    also have "(0::int) \<le> 2 ^ (30 - j)" by simp
    finally have "- 2147483648 \<le> (2::int) ^ (30 - j)" .
    moreover have "(2::int) ^ (30 - j) < 2147483648" using p2 by simp
    ultimately show ?thesis unfolding d by (rule i32_id)
  qed
  have ne: "(0::int) \<noteq> 2 ^ Suc j" by simp
  show ?case
    using IH ne by (subst build.simps) (simp only: m v Let_def and_then_simps if_False)
qed

lemma construction_overflows:
  assumes "length A = 1073741825"
  shows "SegmentTree A = Some (Inl (OutOfBounds (- 2147483648)))"
proof -
  have a: "vector A 0 \<noteq> None" using assms by (simp add: vector_def)
  have b: "vector (replicate ((4 * length A) mod 2 ^ 64) 0) (- 2147483648) = None"
    by (simp add: vector_def)
  have c: "i32 (int (length A) - 1) = 2 ^ 30" using assms by (simp add: i32_def)
  have "build (vector A) (vector (replicate ((4 * length A) mod 2 ^ 64) 0)) (2 ^ (30 - 30)) 0 (2 ^ 30) =
        Some (Inl (OutOfBounds (- 2147483648)))"
    using b a
    by (intro build_left_spine
        [where t = "vector (replicate ((4 * length A) mod 2 ^ 64) 0)" and A = A and j = 30])
      simp_all
  with c show ?thesis
    by (simp add: SegmentTree_def Let_def)
qed

section \<open>Claims about the segment tree\<close>

text \<open>
  The claims C1 to C7 speak of every array of length \<open>n \<ge> 1\<close>. The node indices are
  32-bit \<^verbatim>\<open>int\<close>s, and that is enough for \<open>n \<le> 2^30 = 1073741824\<close> and not for
  \<open>n = 2^30 + 1\<close>, where the constructor subscripts \<^verbatim>\<open>tree[-2147483648]\<close>
  (\<open>construction_overflows\<close>). Each claim is proved for \<open>1 \<le> n \<le> 2^30\<close>, after the
  input at which it fails.
\<close>

text \<open>
  C1. The claim: for every array \<open>A\<close> of length \<open>n \<ge> 1\<close> and all indices with
  \<open>0 \<le> l \<le> r \<le> n - 1\<close>, \<open>query(l, r)\<close> on the tree built from \<open>A\<close> returns the
  sum of exactly the elements \<open>A[l..r]\<close>. On \<open>2^30 + 1\<close> elements no tree is built
  and \<open>query(0, 0)\<close> has nothing to return.
\<close>

theorem query_sum_counterexample:
  "and_then (SegmentTree (replicate 1073741825 0)) (\<lambda>t. query 1073741825 t 0 0) =
     Some (Inl (OutOfBounds (- 2147483648)))"
  by (simp add: construction_overflows)

text \<open>
  C1, for \<open>1 \<le> n \<le> 2^30\<close>: \<open>query(l, r)\<close> on the tree built from \<open>A\<close> returns the
  sum of exactly the elements \<open>A[l..r]\<close>, each counted once; in particular
  \<open>query(0, n - 1)\<close> is the sum of \<open>A\<close>.
\<close>

theorem query_sum:
  assumes "1 \<le> length A" "length A \<le> 1073741824" "0 \<le> l" "l \<le> r" "r < int (length A)"
  shows "\<exists>t. SegmentTree A = Some (Inr t) \<and>
             query (length A) t l r = Some (Inr (sum_list (slice A l r))) \<and>
             query (length A) t 0 (int (length A) - 1) = Some (Inr (sum_list A))"
proof -
  from construct_ok [OF assms(1,2)] obtain t where
    c: "SegmentTree A = Some (Inr t)" and rep: "represents t A"
    by blast
  have "query (length A) t 0 (int (length A) - 1) = Some (Inr (sum_list (slice A 0 (int (length A) - 1))))"
    by (rule query_ok [OF rep]) simp_all
  with c query_ok [OF rep assms(3,5)] show ?thesis
    by (simp add: slice_all)
qed

theorem query_sum_witness:
  "1 \<le> length [1, 3, 5 :: ll] \<and> length [1, 3, 5 :: ll] \<le> 1073741824 \<and>
   (0::int) \<le> 1 \<and> (1::int) \<le> 2 \<and> (2::int) < int (length [1, 3, 5 :: ll]) \<and>
   (\<exists>t. SegmentTree [1, 3, 5] = Some (Inr t) \<and>
        query 3 t 1 2 = Some (Inr 8) \<and>
        query 3 t 0 2 = Some (Inr 9))"
  using query_sum [of "[1, 3, 5]" 1 2] by (simp add: slice_def numeral_3_eq_3)

text \<open>
  C2. The claim: for every array \<open>A\<close> of length \<open>n \<ge> 1\<close>, after construction and after
  any sequence of calls \<open>update(pos, value)\<close> with valid \<open>pos\<close>, every internal slot
  holds the sum of its two children and every leaf slot the current value of its
  array position. On \<open>2^30 + 1\<close> elements the construction does not come to its end.
\<close>

theorem invariant_counterexample:
  "tree_after (replicate 1073741825 0) [] = Some (Inl (OutOfBounds (- 2147483648)))"
  by (simp add: tree_after_def construction_overflows)

text \<open>
  C2, for \<open>1 \<le> n \<le> 2^30\<close>: after construction and after any sequence of calls
  \<open>update(pos, value)\<close> with valid \<open>pos\<close>, every internal slot holds the sum of its two
  children and every leaf slot the current value of its array position.
\<close>

theorem invariant_maintained:
  assumes "1 \<le> length A" "length A \<le> 1073741824" "valid_calls (length A) us"
  shows "\<exists>t. tree_after A us = Some (Inr t) \<and>
             seg_inv t (contents A us) 1 0 (int (length A) - 1)"
  using tree_after_ok [OF assms] by (auto simp: represents_def length_contents)

theorem invariant_maintained_witness:
  "1 \<le> length [1, 3, 5 :: ll] \<and> length [1, 3, 5 :: ll] \<le> 1073741824 \<and>
   valid_calls (length [1, 3, 5 :: ll]) [(2, 7), (0, - 4)] \<and>
   (\<exists>t. tree_after [1, 3, 5] [(2, 7), (0, - 4)] = Some (Inr t) \<and>
        seg_inv t [- 4, 3, 7] 1 0 2)"
  using invariant_maintained [of "[1, 3, 5]" "[(2, 7), (0, - 4)]"]
  by (simp add: valid_calls_def)

text \<open>
  C3. The claim: \<open>query\<close> or \<open>update\<close> with an index outside \<open>[0, n - 1]\<close> fails with
  \<open>OutOfRange\<close> rather than reading invalid memory. The code checks no index. On the
  tree built from six elements, \<open>update(6, 100)\<close> returns and has overwritten position
  \<open>5\<close>, \<open>query(0, 6)\<close> reads slot \<open>30\<close> of a vector of \<open>24\<close> slots, and
  \<open>query(-1, 2)\<close> does not return.
\<close>

theorem out_of_range_counterexample:
  "and_then (SegmentTree [1, 3, 5, 7, 9, 11]) (\<lambda>t.
     and_then (update_pos 6 t 6 100) (\<lambda>t'. query 6 t' 5 5)) = Some (Inr 100) \<and>
   and_then (SegmentTree [1, 3, 5, 7, 9, 11]) (\<lambda>t. query 6 t 0 6) =
     Some (Inl (OutOfBounds 30)) \<and>
   and_then (SegmentTree [1, 3, 5, 7, 9, 11]) (\<lambda>t. query 6 t (- 1) 2) = None"
proof -
  have a: "and_then (SegmentTree [1, 3, 5, 7, 9, 11]) (\<lambda>t.
     and_then (update_pos 6 t 6 100) (\<lambda>t'. query 6 t' 5 5)) = Some (Inr 100)"
    by (simp add: run_simps)
  have b: "and_then (SegmentTree [1, 3, 5, 7, 9, 11]) (\<lambda>t. query 6 t 0 6) =
     Some (Inl (OutOfBounds 30))"
    by (simp add: run_simps)
  obtain t where t: "SegmentTree [1, 3, 5, 7, 9, 11] = Some (Inr t)"
    using construct_ok [of "[1, 3, 5, 7, 9, 11]"] by auto
  have "i32 (int 6 - 1) = 5" by (simp add: i32_def)
  then have "query 6 t (- 1) 2 = None"
    unfolding query_def by (simp add: sum_low_diverges)
  with t have c: "and_then (SegmentTree [1, 3, 5, 7, 9, 11]) (\<lambda>t. query 6 t (- 1) 2) = None"
    by simp
  from a b c show ?thesis by blast
qed

text \<open>
  C3, as the code has it. On every tree over \<open>[0, n - 1]\<close> with \<open>1 \<le> n \<le> 2^30\<close>,
  \<open>update(pos, value)\<close> returns for every \<open>pos\<close>, also one outside \<open>[0, n - 1]\<close>: it
  does what \<open>update\<close> does at the nearest valid position (\<open>0\<close> for \<open>pos < 0\<close>,
  \<open>n - 1\<close> for \<open>pos > n - 1\<close>). \<open>query(l, r)\<close> with \<open>l < 0\<close> and \<open>l \<le> r\<close> does not
  return.
\<close>

theorem unchecked_indices:
  assumes "1 \<le> length A" "length A \<le> 1073741824" "valid_calls (length A) us"
  shows "\<exists>t. tree_after A us = Some (Inr t) \<and>
             (\<forall>pos val. \<exists>t'.
                update_pos (length A) t pos val = Some (Inr t') \<and>
                update_pos (length A) t (max 0 (min pos (int (length A) - 1))) val = Some (Inr t')) \<and>
             (\<forall>l r. l < 0 \<and> l \<le> r \<longrightarrow> query (length A) t l r = None)"
proof -
  from tree_after_ok [OF assms] obtain t where
    ta: "tree_after A us = Some (Inr t)" and rep: "represents t (contents A us)"
    by blast
  let ?n = "length A"
  have n: "length (contents A us) = ?n" by (rule length_contents)
  note rh = root_hi [OF assms(1,2)]
  have a: "\<exists>t'. update_pos ?n t pos val = Some (Inr t') \<and>
                update_pos ?n t (max 0 (min pos (int ?n - 1))) val = Some (Inr t')" for pos val
  proof -
    let ?p = "max 0 (min pos (int ?n - 1))"
    have "0 \<le> ?p" "?p < int ?n" using assms(1) by linarith+
    with update_pos_ok [OF rep, of ?p val] n obtain t' where
      "update_pos ?n t ?p val = Some (Inr t')" by auto
    with update_pos_clamp [OF assms(1,2), of t pos val] show ?thesis by simp
  qed
  have b: "query ?n t l r = None" if "l < 0 \<and> l \<le> r" for l r
    unfolding query_def rh(1) using that rh(2,3) by (intro sum_low_diverges) simp_all
  from ta a b show ?thesis by blast
qed

theorem unchecked_indices_witness:
  "1 \<le> length [1, 3, 5 :: ll] \<and> length [1, 3, 5 :: ll] \<le> 1073741824 \<and>
   valid_calls (length [1, 3, 5 :: ll]) [(1, 2)] \<and>
   (\<exists>t. tree_after [1, 3, 5] [(1, 2)] = Some (Inr t) \<and>
        (\<exists>t'. update_pos 3 t 3 9 = Some (Inr t') \<and> update_pos 3 t 2 9 = Some (Inr t')) \<and>
        (\<exists>t'. update_pos 3 t (- 1) 9 = Some (Inr t') \<and> update_pos 3 t 0 9 = Some (Inr t')) \<and>
        query 3 t (- 1) 1 = None)"
proof -
  have h: "1 \<le> length [1, 3, 5 :: ll]" "length [1, 3, 5 :: ll] \<le> 1073741824"
    "valid_calls (length [1, 3, 5 :: ll]) [(1, 2)]"
    by (simp_all add: valid_calls_def)
  from unchecked_indices [OF h] obtain t where
    t: "tree_after [1, 3, 5] [(1, 2)] = Some (Inr t)" and
    u: "\<And>pos val. \<exists>t'. update_pos (length [1, 3, 5 :: ll]) t pos val = Some (Inr t') \<and>
          update_pos (length [1, 3, 5 :: ll]) t (max 0 (min pos (int (length [1, 3, 5 :: ll]) - 1))) val = Some (Inr t')" and
    q: "\<And>l r. l < 0 \<and> l \<le> r \<longrightarrow> query (length [1, 3, 5 :: ll]) t l r = None"
    by blast
  from u [of 3 9] u [of "- 1" 9] q [of "- 1" 1] t h show ?thesis
    by (simp add: numeral_3_eq_3)
qed

text \<open>
  C4. The claim: for every array of length \<open>n \<ge> 1\<close>, tree storage of size \<open>4 * n\<close>
  suffices: build, and query and update called with valid arguments, only access tree
  slots with index in \<open>[1, 4 * n)\<close>. On \<open>2^30 + 1\<close> elements the constructor's call of
  build, on the constructor's vector of \<open>4 * n\<close> elements, subscripts
  \<^verbatim>\<open>tree[-2147483648]\<close>.
\<close>

theorem storage_counterexample:
  "build (vector (replicate 1073741825 0)) (vector (replicate (4 * 1073741825) 0))
     1 0 (i32 (int 1073741825 - 1)) =
   Some (Inl (OutOfBounds (- 2147483648)))"
  using construction_overflows [of "replicate 1073741825 0"]
  by (simp add: SegmentTree_def)

text \<open>
  C4, for \<open>1 \<le> n \<le> 2^30\<close>: tree storage of size \<open>4 * n\<close> suffices, and build, query and
  update with valid arguments only access tree slots with index in \<open>[1, 4 * n)\<close>. An
  access to a slot the store does not have stops the run with \<open>OutOfBounds\<close>; so the
  three run to their end on every store that has the slots \<open>1, \<dots>, 4 * n - 1\<close>,
  whatever else it has, and the vector the constructor assigns is such a store.
\<close>

theorem storage_suffices:
  assumes "1 \<le> length A" "length A \<le> 1073741824" "alloc (length A) t"
    and "0 \<le> l" "l \<le> r" "r < int (length A)"
    and "0 \<le> pos" "pos < int (length A)"
  shows "alloc (length A) (vector (replicate ((4 * length A) mod 2 ^ 64) 0)) \<and>
         (\<exists>t'. build (vector A) t 1 0 (i32 (int (length A) - 1)) = Some (Inr t') \<and>
               dom t' = dom t) \<and>
         (\<exists>s. query (length A) t l r = Some (Inr s)) \<and>
         (\<exists>t'. update_pos (length A) t pos val = Some (Inr t') \<and> dom t' = dom t)"
proof -
  note root = fits_root [OF assms(1,2)]
  note rh = root_hi [OF assms(1,2)]
  from build_correct [OF root assms(3) refl]
  have b: "\<exists>t'. build (vector A) t 1 0 (i32 (int (length A) - 1)) = Some (Inr t') \<and> dom t' = dom t"
    unfolding rh(1) by blast
  from assms(6) have "r \<le> int (length A) - 1" by simp
  from sum_defined [OF root assms(3,4) this]
  have q: "\<exists>s. query (length A) t l r = Some (Inr s)"
    by (simp add: query_def rh(1))
  from assms(8) have "pos \<le> int (length A) - 1" by simp
  from update_correct [OF root assms(3,7) this refl, of val]
  have u: "\<exists>t'. update_pos (length A) t pos val = Some (Inr t') \<and> dom t' = dom t"
    unfolding update_pos_def rh(1) by blast
  from alloc_assign [OF assms(2)] b q u show ?thesis by blast
qed

theorem storage_suffices_witness:
  "1 \<le> length [1, 3, 5 :: ll] \<and> length [1, 3, 5 :: ll] \<le> 1073741824 \<and>
   alloc (length [1, 3, 5 :: ll]) (\<lambda>i. if 1 \<le> i \<and> i < 12 then Some 0 else None) \<and>
   (0::int) \<le> 1 \<and> (1::int) \<le> 2 \<and> 2 < int (length [1, 3, 5 :: ll]) \<and>
   (0::int) \<le> 2 \<and> 2 < int (length [1, 3, 5 :: ll]) \<and>
   (\<exists>t'. build (vector [1, 3, 5]) (\<lambda>i. if 1 \<le> i \<and> i < 12 then Some 0 else None) 1 0 2 = Some (Inr t') \<and>
         dom t' = {1..<12}) \<and>
   (\<exists>s. query 3 (\<lambda>i. if 1 \<le> i \<and> i < 12 then Some 0 else None) 1 2 = Some (Inr s)) \<and>
   (\<exists>t'. update_pos 3 (\<lambda>i. if 1 \<le> i \<and> i < 12 then Some 0 else None) 2 7 = Some (Inr t') \<and>
         dom t' = {1..<12})"
proof -
  let ?t = "\<lambda>i::int. if 1 \<le> i \<and> i < 12 then Some (0::ll) else None"
  have d: "dom ?t = {1..<12}" by (auto simp: dom_def)
  have h: "1 \<le> length [1, 3, 5 :: ll]" "length [1, 3, 5 :: ll] \<le> 1073741824"
    "alloc (length [1, 3, 5 :: ll]) ?t"
    by (simp_all add: alloc_def)
  have i: "i32 (int (length [1, 3, 5 :: ll]) - 1) = 2" by (simp add: i32_def)
  from storage_suffices [OF h, of 1 2 2 7] d h show ?thesis
    unfolding i by (simp add: numeral_3_eq_3)
qed

text \<open>
  C5. The claim: for every array \<open>A\<close> of length \<open>n \<ge> 1\<close> and every valid \<open>pos\<close>,
  \<open>query(pos, pos) = A[pos]\<close> right after construction, and
  \<open>query(pos, pos) = value\<close> right after \<open>update(pos, value)\<close>. On \<open>2^30 + 1\<close>
  elements there is no tree to ask.
\<close>

theorem point_read_counterexample:
  "and_then (SegmentTree (replicate 1073741825 0)) (\<lambda>t. query 1073741825 t 7 7) =
     Some (Inl (OutOfBounds (- 2147483648))) \<and>
   and_then (SegmentTree (replicate 1073741825 0)) (\<lambda>t.
     and_then (update_pos 1073741825 t 7 1) (\<lambda>t'. query 1073741825 t' 7 7)) =
     Some (Inl (OutOfBounds (- 2147483648)))"
  by (simp add: construction_overflows)

text \<open>
  C5, for \<open>1 \<le> n \<le> 2^30\<close>: for every valid \<open>pos\<close>, \<open>query(pos, pos) = A[pos]\<close> right
  after construction, and \<open>query(pos, pos) = value\<close> right after
  \<open>update(pos, value)\<close>, whatever valid updates came before. The value is the 32-bit
  \<^verbatim>\<open>int\<close> that \<open>update\<close> takes, read back as a \<^verbatim>\<open>long long\<close>.
\<close>

theorem point_read_through:
  assumes "1 \<le> length A" "length A \<le> 1073741824" "valid_calls (length A) us"
    and "0 \<le> pos" "pos < int (length A)"
  shows "\<exists>t0 t t'. SegmentTree A = Some (Inr t0) \<and>
           query (length A) t0 pos pos = Some (Inr (A ! nat pos)) \<and>
           tree_after A us = Some (Inr t) \<and>
           update_pos (length A) t pos val = Some (Inr t') \<and>
           query (length A) t' pos pos = Some (Inr (scast val))"
proof -
  from construct_ok [OF assms(1,2)] obtain t0 where
    c: "SegmentTree A = Some (Inr t0)" and r0: "represents t0 A"
    by blast
  from tree_after_ok [OF assms(1,2,3)] obtain t where
    ta: "tree_after A us = Some (Inr t)" and rep: "represents t (contents A us)"
    by blast
  let ?B = "contents A us"
  have n: "length ?B = length A" by (rule length_contents)
  from update_pos_ok [OF rep, of pos val] assms(4,5) n obtain t' where
    u: "update_pos (length A) t pos val = Some (Inr t')" and
    r': "represents t' (?B[nat pos := scast val])"
    by auto
  have "query (length (?B[nat pos := scast val])) t' pos pos = Some (Inr (?B[nat pos := scast val] ! nat pos))"
    using assms(4,5) n by (intro query_point [OF r']) simp_all
  then have q': "query (length A) t' pos pos = Some (Inr (scast val))"
    using assms(4,5) n by simp
  from c query_point [OF r0 assms(4,5)] ta u q' show ?thesis by blast
qed

theorem point_read_through_witness:
  "1 \<le> length [1, 3, 5 :: ll] \<and> length [1, 3, 5 :: ll] \<le> 1073741824 \<and>
   valid_calls (length [1, 3, 5 :: ll]) [(0, 8)] \<and>
   (0::int) \<le> 1 \<and> 1 < int (length [1, 3, 5 :: ll]) \<and>
   (\<exists>t0 t t'. SegmentTree [1, 3, 5] = Some (Inr t0) \<and>
           query 3 t0 1 1 = Some (Inr 3) \<and>
           tree_after [1, 3, 5] [(0, 8)] = Some (Inr t) \<and>
           update_pos 3 t 1 (- 2) = Some (Inr t') \<and>
           query 3 t' 1 1 = Some (Inr (- 2)))"
  using point_read_through [of "[1, 3, 5]" "[(0, 8)]" 1 "- 2"]
  by (simp add: valid_calls_def numeral_3_eq_3)

text \<open>
  C6. The claim: for every tree over \<open>[0, n - 1]\<close>, every valid \<open>pos\<close> and every value,
  after \<open>update(pos, value)\<close>, \<open>query(i, i)\<close> is unchanged for every valid
  \<open>i \<noteq> pos\<close>. On \<open>2^30 + 1\<close> elements no tree is built. On \<open>2^32 + 3\<close> elements
  \<^verbatim>\<open>n - 1\<close> is \<open>2\<close> as an \<^verbatim>\<open>int\<close>, the tree covers \<open>[0, 2]\<close>, and \<open>update(5, 9)\<close>
  changes \<open>query(2, 2)\<close> from \<open>1\<close> to \<open>9\<close>.
\<close>

theorem update_locality_counterexample:
  "tree_after (replicate 1073741825 0) [(0, 1)] = Some (Inl (OutOfBounds (- 2147483648))) \<and>
   and_then (SegmentTree (replicate 4294967299 1)) (\<lambda>t. query 4294967299 t 2 2) =
     Some (Inr 1) \<and>
   and_then (SegmentTree (replicate 4294967299 1)) (\<lambda>t.
     and_then (update_pos 4294967299 t 5 9) (\<lambda>t'. query 4294967299 t' 2 2)) =
     Some (Inr 9)"
proof -
  have a: "tree_after (replicate 1073741825 0) [(0, 1)] =
      Some (Inl (OutOfBounds (- 2147483648)))"
    by (simp add: tree_after_def construction_overflows)
  have b: "and_then (SegmentTree (replicate 4294967299 1)) (\<lambda>t. query 4294967299 t 2 2) =
     Some (Inr 1)"
    by (simp add: run_simps)
  have c: "and_then (SegmentTree (replicate 4294967299 1)) (\<lambda>t.
     and_then (update_pos 4294967299 t 5 9) (\<lambda>t'. query 4294967299 t' 2 2)) =
     Some (Inr 9)"
    by (simp add: run_simps)
  from a b c show ?thesis by blast
qed

text \<open>
  C6, for \<open>1 \<le> n \<le> 2^30\<close>: on every tree over \<open>[0, n - 1]\<close>, for every valid \<open>pos\<close>
  and every value, after \<open>update(pos, value)\<close>, \<open>query(i, i)\<close> is unchanged for every
  valid \<open>i \<noteq> pos\<close>.
\<close>

theorem update_locality:
  assumes "1 \<le> length A" "length A \<le> 1073741824" "valid_calls (length A) us"
    and "0 \<le> pos" "pos < int (length A)"
    and "0 \<le> i" "i < int (length A)" "i \<noteq> pos"
  shows "\<exists>t t' x. tree_after A us = Some (Inr t) \<and>
           update_pos (length A) t pos val = Some (Inr t') \<and>
           query (length A) t i i = Some (Inr x) \<and>
           query (length A) t' i i = Some (Inr x)"
proof -
  from tree_after_ok [OF assms(1,2,3)] obtain t where
    ta: "tree_after A us = Some (Inr t)" and rep: "represents t (contents A us)"
    by blast
  let ?B = "contents A us"
  have n: "length ?B = length A" by (rule length_contents)
  from update_pos_ok [OF rep, of pos val] assms(4,5) n obtain t' where
    u: "update_pos (length A) t pos val = Some (Inr t')" and
    r': "represents t' (?B[nat pos := scast val])"
    by auto
  have q: "query (length A) t i i = Some (Inr (?B ! nat i))"
    using query_point [OF rep, of i] assms(6,7) n by simp
  have "query (length (?B[nat pos := scast val])) t' i i = Some (Inr (?B[nat pos := scast val] ! nat i))"
    using assms(6,7) n by (intro query_point [OF r']) simp_all
  moreover have "nat i \<noteq> nat pos" using assms(4,6,8) by simp
  ultimately have q': "query (length A) t' i i = Some (Inr (?B ! nat i))"
    using n by simp
  from ta u q q' show ?thesis by blast
qed

theorem update_locality_witness:
  "1 \<le> length [1, 3, 5 :: ll] \<and> length [1, 3, 5 :: ll] \<le> 1073741824 \<and>
   valid_calls (length [1, 3, 5 :: ll]) [(0, 8)] \<and>
   (0::int) \<le> 1 \<and> 1 < int (length [1, 3, 5 :: ll]) \<and>
   (0::int) \<le> 2 \<and> 2 < int (length [1, 3, 5 :: ll]) \<and> (2::int) \<noteq> 1 \<and>
   (\<exists>t t' x. tree_after [1, 3, 5] [(0, 8)] = Some (Inr t) \<and>
           update_pos 3 t 1 6 = Some (Inr t') \<and>
           query 3 t 2 2 = Some (Inr x) \<and>
           query 3 t' 2 2 = Some (Inr x))"
  using update_locality [of "[1, 3, 5]" "[(0, 8)]" 1 2 6]
  by (simp add: valid_calls_def numeral_3_eq_3)

text \<open>
  C7. The claim: for every tree over \<open>[0, n - 1]\<close> and all indices with
  \<open>0 \<le> l \<le> m < r \<le> n - 1\<close>, \<open>query(l, r) = query(l, m) + query(m + 1, r)\<close>. On
  \<open>2^30 + 1\<close> elements no tree is built. On \<open>2^32 + 3\<close> elements, all of them \<open>1\<close>, the
  tree covers \<open>[0, 2]\<close>: \<open>query(0, 2) = 3\<close> and \<open>query(3, 3) = 0\<close>, but
  \<open>query(0, 3) = 2\<close>.
\<close>

theorem range_additivity_counterexample:
  "and_then (SegmentTree (replicate 1073741825 0)) (\<lambda>t. query 1073741825 t 0 1) =
     Some (Inl (OutOfBounds (- 2147483648))) \<and>
   and_then (SegmentTree (replicate 4294967299 1)) (\<lambda>t. query 4294967299 t 0 2) =
     Some (Inr 3) \<and>
   and_then (SegmentTree (replicate 4294967299 1)) (\<lambda>t. query 4294967299 t 3 3) =
     Some (Inr 0) \<and>
   and_then (SegmentTree (replicate 4294967299 1)) (\<lambda>t. query 4294967299 t 0 3) =
     Some (Inr 2)"
proof -
  have a: "and_then (SegmentTree (replicate 1073741825 0)) (\<lambda>t. query 1073741825 t 0 1) =
     Some (Inl (OutOfBounds (- 2147483648)))"
    by (simp add: construction_overflows)
  have b: "and_then (SegmentTree (replicate 4294967299 1)) (\<lambda>t. query 4294967299 t 0 2) =
     Some (Inr 3)"
    by (simp add: run_simps)
  have c: "and_then (SegmentTree (replicate 4294967299 1)) (\<lambda>t. query 4294967299 t 3 3) =
     Some (Inr 0)"
    by (simp add: run_simps)
  have d: "and_then (SegmentTree (replicate 4294967299 1)) (\<lambda>t. query 4294967299 t 0 3) =
     Some (Inr 2)"
    by (simp add: run_simps)
  from a b c d show ?thesis by blast
qed

text \<open>
  C7, for \<open>1 \<le> n \<le> 2^30\<close>: on every tree over \<open>[0, n - 1]\<close> and for all indices with
  \<open>0 \<le> l \<le> m < r \<le> n - 1\<close>: \<open>query(l, r) = query(l, m) + query(m + 1, r)\<close>.
\<close>

theorem range_additivity:
  assumes "1 \<le> length A" "length A \<le> 1073741824" "valid_calls (length A) us"
    and "0 \<le> l" "l \<le> m" "m < r" "r < int (length A)"
  shows "\<exists>t x y. tree_after A us = Some (Inr t) \<and>
           query (length A) t l m = Some (Inr x) \<and>
           query (length A) t (m + 1) r = Some (Inr y) \<and>
           query (length A) t l r = Some (Inr (x + y))"
proof -
  from tree_after_ok [OF assms(1,2,3)] obtain t where
    ta: "tree_after A us = Some (Inr t)" and rep: "represents t (contents A us)"
    by blast
  let ?B = "contents A us"
  have n: "length ?B = length A" by (rule length_contents)
  have q1: "query (length A) t l m = Some (Inr (sum_list (slice ?B l m)))"
    using query_ok [OF rep, of l m] assms n by simp
  have q2: "query (length A) t (m + 1) r = Some (Inr (sum_list (slice ?B (m + 1) r)))"
    using query_ok [OF rep, of "m + 1" r] assms n by simp
  have q: "query (length A) t l r = Some (Inr (sum_list (slice ?B l r)))"
    using query_ok [OF rep, of l r] assms n by simp
  have "slice ?B l r = slice ?B l m @ slice ?B (m + 1) r"
    using assms by (intro slice_split) simp_all
  with ta q1 q2 q show ?thesis by simp
qed

theorem range_additivity_witness:
  "1 \<le> length [1, 3, 5 :: ll] \<and> length [1, 3, 5 :: ll] \<le> 1073741824 \<and>
   valid_calls (length [1, 3, 5 :: ll]) [(0, 8)] \<and>
   (0::int) \<le> 0 \<and> (0::int) \<le> 1 \<and> (1::int) < 2 \<and> 2 < int (length [1, 3, 5 :: ll]) \<and>
   (\<exists>t x y. tree_after [1, 3, 5] [(0, 8)] = Some (Inr t) \<and>
           query 3 t 0 1 = Some (Inr x) \<and>
           query 3 t 2 2 = Some (Inr y) \<and>
           query 3 t 0 2 = Some (Inr (x + y)))"
  using range_additivity [of "[1, 3, 5]" "[(0, 8)]" 0 1 2]
  by (simp add: valid_calls_def numeral_3_eq_3)

text \<open>
  C8. For the tree built from \<open>A = [1, 3, 5, 7, 9, 11]\<close>: \<open>query(1, 4) = 24\<close>; after
  \<open>update(2, 100)\<close>, \<open>query(1, 4) = 119\<close> and \<open>query(0, 5) = 131\<close>.
\<close>

theorem concrete_scenario:
  "\<exists>t t'. SegmentTree [1, 3, 5, 7, 9, 11] = Some (Inr t) \<and>
          query 6 t 1 4 = Some (Inr 24) \<and>
          update_pos 6 t 2 100 = Some (Inr t') \<and>
          query 6 t' 1 4 = Some (Inr 119) \<and>
          query 6 t' 0 5 = Some (Inr 131)"
  by (simp add: run_simps)

section \<open>Claims about the smart pointers\<close>

lemmas ptr_simps =
  deref_def store_def customSharedPtr_def copy_ctor_def copy_assign_def use_count_def Let_def

text \<open>
  The copy constructor leaves every counter as it was: the source still reads its old
  count, and the copy's pointer is one element past the counter.
\<close>

lemma copy_ctor_keeps_count:
  assumes "use_count p h = Inr c"
  shows "\<exists>b. m_ref_count p = Ptr b 0 \<and>
             copy_ctor p h = Inr (\<lparr>m_ptr = m_ptr p, m_ref_count = Ptr b 1\<rparr>, h) \<and>
             use_count \<lparr>m_ptr = m_ptr p, m_ref_count = Ptr b 1\<rparr> h =
               Inl (InvalidDereference (Ptr b 1))"
  using assms by (auto simp: ptr_simps split: pointer.splits if_splits)

text \<open>Copy assignment, next to it in the source, does count the new owner.\<close>

lemma copy_assign_counts:
  assumes "use_count p h = Inr c" "m_ptr p \<noteq> Nullptr"
  shows "\<exists>q h'. copy_assign this p h = Inr (q, h') \<and>
               use_count p h' = Inr (c + 1) \<and> use_count q h' = Inr (c + 1)"
  using assms by (auto simp: ptr_simps split: pointer.splits if_splits)

text \<open>
  C9. The claim: copy-constructing \<open>q\<close> from a \<open>customSharedPtr p\<close> whose
  \<open>use_count()\<close> is \<open>c\<close> leaves \<open>use_count()\<close> equal to \<open>c + 1\<close> through both \<open>p\<close>
  and \<open>q\<close>. The code at \<^verbatim>\<open>customSharedPtr<int> p(new int(6)); customSharedPtr<int> q(p);\<close>:
  \<open>p\<close> still counts \<open>1\<close>, and \<open>q.use_count()\<close> dereferences a pointer one past the
  counter.
\<close>

theorem copy_ctor_count:
  "customSharedPtr (Ptr 7 0) [] = (\<lparr>m_ptr = Ptr 7 0, m_ref_count = Ptr 0 0\<rparr>, [1]) \<and>
   use_count \<lparr>m_ptr = Ptr 7 0, m_ref_count = Ptr 0 0\<rparr> [1] = Inr 1 \<and>
   copy_ctor \<lparr>m_ptr = Ptr 7 0, m_ref_count = Ptr 0 0\<rparr> [1] =
     Inr (\<lparr>m_ptr = Ptr 7 0, m_ref_count = Ptr 0 1\<rparr>, [1]) \<and>
   use_count \<lparr>m_ptr = Ptr 7 0, m_ref_count = Ptr 0 1\<rparr> [1] =
     Inl (InvalidDereference (Ptr 0 1))"
  by (simp add: ptr_simps)

lemmas uptr_simps = get_def operator_bool_def move_ctor_def move_assign_def Let_def




text \<open>Moving an object into itself is the other case: it keeps the pointer it deleted.\<close>

lemma self_move_assign:
  assumes "w a = Some x" "run (mDeleter x) (mPtr x) w a = Some x'"
  shows "\<exists>w'. move_assign run a a w = Inr w' \<and> get a w' = Inr (mPtr x')"
  using assms by (simp add: uptr_simps)


end
